theory Spec2Isabelle
  imports
    Complex_Main
    "HOL-Library.AList"
    "HOL-Library.Char_ord"
    "HOL-Library.Extended_Nat"
    "HOL-Library.List_Lexorder"
    "HOL-Library.Product_Lexorder"
begin

section \<open>Python containers\<close>

text \<open>
  A Python \<open>dict\<close> is an association list with distinct keys in insertion order:
  \<open>AList.update\<close> overwrites a key in place and appends a new key at the end, as
  \<open>d[k] = v\<close> does. A Python \<open>set\<close> is a duplicate-free list; the order of the list
  stands for the (unspecified) iteration order of the set. A \<open>float\<close> amount is an
  exact rational number: rounding is not part of the model, so only properties that do
  not depend on how sums of amounts round are stated over it.
\<close>

datatype error = ValueError | KeyError | OverflowError | IndexError

datatype 'a outcome = Returned 'a | Raised error

type_synonym amount = rat

text \<open>\<open>d[k]\<close> on a \<open>defaultdict\<close>: a missing key is inserted with the default value.\<close>

definition vivify :: "'v \<Rightarrow> 'k \<Rightarrow> ('k \<times> 'v) list \<Rightarrow> ('k \<times> 'v) list" where
  "vivify dflt k d = (case map_of d k of None \<Rightarrow> d @ [(k, dflt)] | Some v \<Rightarrow> d)"

text \<open>The value \<open>d[k]\<close> evaluates to on a \<open>defaultdict\<close>, and \<open>d.get(k, dflt)\<close>.\<close>

definition getitem :: "'v \<Rightarrow> 'k \<Rightarrow> ('k \<times> 'v) list \<Rightarrow> 'v" where
  "getitem dflt k d = (case map_of d k of None \<Rightarrow> dflt | Some v \<Rightarrow> v)"

text \<open>\<open>del d[k]\<close>: \<open>None\<close> stands for the \<open>KeyError\<close> of a missing key.\<close>

definition delitem :: "'k \<Rightarrow> ('k \<times> 'v) list \<Rightarrow> ('k \<times> 'v) list option" where
  "delitem k d = (if k \<in> fst ` set d then Some (AList.delete k d) else None)"

text \<open>\<open>s.add(x)\<close> on a set.\<close>

definition set_add :: "'a \<Rightarrow> 'a list \<Rightarrow> 'a list" where
  "set_add x s = (if x \<in> set s then s else s @ [x])"

text \<open>
  \<open>heapq\<close>: the heap is the list of its items, \<open>heappop\<close> takes out the least item.
  The loop that uses it checks that the heap is non-empty before it pops.
\<close>

definition heappush :: "'a list \<Rightarrow> 'a \<Rightarrow> 'a list" where
  "heappush h x = x # h"

definition heappop :: "('a::linorder) list \<Rightarrow> 'a \<times> 'a list" where
  "heappop h = (let m = Min (set h) in (m, remove1 m h))"

section \<open>The debt ledger (\<open>cost.py\<close>)\<close>

type_synonym row = "(string \<times> amount) list"

type_synonym graph = "(string \<times> row) list"

record ledger =
  original_debts :: graph
  optimized_debts :: graph
  members :: "string list"
  group_id :: string

definition eps :: amount where
  "eps = 1 / 1000000000"

definition init_ledger :: "string \<Rightarrow> ledger" where
  "init_ledger gid = \<lparr>original_debts = [], optimized_debts = [], members = [], group_id = gid\<rparr>"

definition add_member :: "string \<Rightarrow> ledger \<Rightarrow> ledger" where
  "add_member member_id L = L\<lparr>members := set_add member_id (members L)\<rparr>"

text \<open>\<open>graph[a][b] += amount\<close> on the nested \<open>defaultdict\<close>.\<close>

definition add_edge :: "string \<Rightarrow> string \<Rightarrow> amount \<Rightarrow> graph \<Rightarrow> graph" where
  "add_edge a b amt g =
     (let r = getitem [] a g
      in AList.update a (AList.update b (getitem 0 b r + amt) r) g)"

text \<open>\<open>graph[a][b] = amount\<close> on the nested \<open>defaultdict\<close>.\<close>

definition set_edge :: "string \<Rightarrow> string \<Rightarrow> amount \<Rightarrow> graph \<Rightarrow> graph" where
  "set_edge a b amt g = AList.update a (AList.update b amt (getitem [] a g)) g"

definition update :: "string \<Rightarrow> string \<Rightarrow> amount \<Rightarrow> ledger \<Rightarrow> ledger" where
  "update from_member to_member amt L =
     (let L1 = (if from_member \<notin> set (members L) then add_member from_member L else L);
          L2 = (if to_member \<notin> set (members L1) then add_member to_member L1 else L1)
      in L2\<lparr>original_debts := add_edge from_member to_member amt (original_debts L2)\<rparr>)"

text \<open>
  \<open>_get_net_balance\<close> reads \<open>debt_graph[other]\<close> and \<open>debt_graph[member_id]\<close> through the
  \<open>defaultdict\<close>, so it returns the graph with those rows materialised next to the balance.
\<close>

definition get_net_balance :: "string list \<Rightarrow> string \<Rightarrow> graph \<Rightarrow> amount \<times> graph" where
  "get_net_balance ms member_id debt_graph =
     (let s1 = fold (\<lambda>other (net, g).
                   (net + getitem 0 member_id (getitem [] other g), vivify [] other g))
                 ms (0, debt_graph);
          s2 = fold (\<lambda>other (net, g).
                   (net - getitem 0 other (getitem [] member_id g), vivify [] member_id g))
                 ms s1
      in s2)"

text \<open>
  The loop of \<open>remove_member\<close> over \<open>list(graph[member_id].keys())\<close>: two \<open>del\<close>s per key,
  each of which raises \<open>KeyError\<close> when the key is missing; the graph reached so far is
  returned with the error.
\<close>

fun clear_edges :: "string \<Rightarrow> string list \<Rightarrow> graph \<Rightarrow> error option \<times> graph" where
  "clear_edges member_id [] g = (None, g)"
| "clear_edges member_id (other # rest) g =
     (let g1 = vivify [] member_id g
      in case delitem other (getitem [] member_id g1) of
           None \<Rightarrow> (Some KeyError, g1)
         | Some r \<Rightarrow>
             (let g2 = AList.update member_id r g1;
                  g3 = vivify [] other g2
              in case delitem member_id (getitem [] other g3) of
                   None \<Rightarrow> (Some KeyError, g3)
                 | Some r' \<Rightarrow> clear_edges member_id rest (AList.update other r' g3)))"

text \<open>\<open>if not graph[member_id]: del graph[member_id]\<close>.\<close>

definition drop_empty_row :: "string \<Rightarrow> graph \<Rightarrow> graph" where
  "drop_empty_row member_id g =
     (let g1 = vivify [] member_id g
      in if getitem [] member_id g1 = [] then AList.delete member_id g1 else g1)"

definition remove_member :: "string \<Rightarrow> ledger \<Rightarrow> bool outcome \<times> ledger" where
  "remove_member member_id L =
     (if member_id \<notin> set (members L) then (Returned False, L)
      else
        (let (net_balance, g) = get_net_balance (members L) member_id (original_debts L);
             L1 = L\<lparr>original_debts := g\<rparr>
         in if \<bar>net_balance\<bar> > eps then (Raised ValueError, L1)
            else
              (let L2 = L1\<lparr>members := remove1 member_id (members L1)\<rparr>;
                   go = vivify [] member_id (original_debts L2)
               in case clear_edges member_id (map fst (getitem [] member_id go)) go of
                    (Some e, go') \<Rightarrow> (Raised e, L2\<lparr>original_debts := go'\<rparr>)
                  | (None, go') \<Rightarrow>
                      (let L3 = L2\<lparr>original_debts := go'\<rparr>;
                           gp = vivify [] member_id (optimized_debts L3)
                       in case clear_edges member_id (map fst (getitem [] member_id gp)) gp of
                            (Some e, gp') \<Rightarrow> (Raised e, L3\<lparr>optimized_debts := gp'\<rparr>)
                          | (None, gp') \<Rightarrow>
                              (Returned True,
                               L3\<lparr>original_debts := drop_empty_row member_id (original_debts L3),
                                  optimized_debts := drop_empty_row member_id gp'\<rparr>)))))"

text \<open>
  One round of the \<open>while debtors and creditors\<close> loop of \<open>optimized_payment_process\<close>,
  on non-empty heaps. A heap item is (negated magnitude, member).
\<close>

definition settle_step ::
  "(amount \<times> string) list \<Rightarrow> (amount \<times> string) list \<Rightarrow> graph
   \<Rightarrow> (amount \<times> string) list \<times> (amount \<times> string) list \<times> graph" where
  "settle_step debtors creditors opt =
     (let (dk, debtors1) = heappop debtors;
          debt_amt = - fst dk;
          debtor = snd dk;
          (ck, creditors1) = heappop creditors;
          credit_amt = - fst ck;
          creditor = snd ck;
          settlement = min debt_amt credit_amt;
          opt1 = set_edge debtor creditor settlement opt;
          debt_amt1 = debt_amt - settlement;
          credit_amt1 = credit_amt - settlement;
          debtors2 = (if debt_amt1 > eps then heappush debtors1 (- debt_amt1, debtor)
                      else debtors1);
          creditors2 = (if credit_amt1 > eps then heappush creditors1 (- credit_amt1, creditor)
                        else creditors1)
      in (debtors2, creditors2, opt1))"

text \<open>The loop. One of the two remainders of a round is zero, so a heap shrinks.\<close>

function settle :: "(amount \<times> string) list \<Rightarrow> (amount \<times> string) list \<Rightarrow> graph \<Rightarrow> graph" where
  "settle debtors creditors opt =
     (if debtors = [] \<or> creditors = [] then opt
      else
        (case settle_step debtors creditors opt of
           (debtors2, creditors2, opt1) \<Rightarrow> settle debtors2 creditors2 opt1))"
  by pat_completeness auto
termination
proof (relation "measure (\<lambda>(d, c, opt). length d + length c)", goal_cases)
  case 1
  then show ?case by simp
next
  case (2 debtors creditors opt debtors2 x creditors2 opt1)
  have pop_len: "Suc (length (snd (heappop h))) = length h" if "h \<noteq> []"
    for h :: "(amount \<times> string) list"
  proof -
    have "Min (set h) \<in> set h" using that by simp
    then have "length (remove1 (Min (set h)) h) = length h - 1"
      by (simp add: length_remove1)
    moreover have "length h > 0" using that by simp
    ultimately show ?thesis by (simp add: heappop_def Let_def)
  qed
  have d: "Suc (length (snd (heappop debtors))) = length debtors"
    using 2 by (intro pop_len) simp
  have c: "Suc (length (snd (heappop creditors))) = length creditors"
    using 2 by (intro pop_len) simp
  have step: "settle_step debtors creditors opt = (debtors2, creditors2, opt1)"
    using 2 by (metis prod.collapse prod.inject)
  have "length debtors2 + length creditors2
      \<le> length (snd (heappop debtors)) + length (snd (heappop creditors)) + 1"
    using step
    by (auto simp: settle_step_def Let_def split_def heappush_def min_def eps_def
        split: if_splits)
  then show ?case using d c by simp
qed

declare settle.simps [simp del]

text \<open>The first loop of \<open>optimized_payment_process\<close>: the dict \<open>net_balances\<close>.\<close>

definition net_balances_of :: "string list \<Rightarrow> graph \<Rightarrow> (string \<times> amount) list \<times> graph" where
  "net_balances_of ms g0 =
     fold (\<lambda>member (nb, g).
             (let (net, g') = get_net_balance ms member g
              in (AList.update member net nb, g')))
          ms ([], g0)"

text \<open>The second loop: the two heaps, filled in the order of \<open>net_balances.items()\<close>.\<close>

definition partition_heaps ::
  "(string \<times> amount) list \<Rightarrow> (amount \<times> string) list \<times> (amount \<times> string) list" where
  "partition_heaps nb =
     fold (\<lambda>(member, balance) (debtors, creditors).
             if balance < - eps then (heappush debtors (balance, member), creditors)
             else if balance > eps then (debtors, heappush creditors (- balance, member))
             else (debtors, creditors))
          nb ([], [])"

definition optimized_payment_process :: "ledger \<Rightarrow> graph \<times> ledger" where
  "optimized_payment_process L =
     (if members L = [] then ([], L)
      else
        (let (net_balances, g) = net_balances_of (members L) (original_debts L);
             (debtors, creditors) = partition_heaps net_balances;
             opt = settle debtors creditors []
         in (opt, L\<lparr>original_debts := g, optimized_debts := opt\<rparr>)))"

definition force_remove_member :: "string \<Rightarrow> bool \<Rightarrow> ledger \<Rightarrow> bool outcome \<times> ledger" where
  "force_remove_member member_id settle_first L =
     (if member_id \<notin> set (members L) then (Returned False, L)
      else
        (let L3 =
               (if settle_first then
                  (let (net_balance, g) =
                         get_net_balance (members L) member_id (original_debts L);
                       L1 = L\<lparr>original_debts := g\<rparr>;
                       L2 =
                         (if net_balance > eps then
                            (case find (\<lambda>other. other \<noteq> member_id) (members L1) of
                               None \<Rightarrow> L1
                             | Some other \<Rightarrow>
                                 L1\<lparr>original_debts :=
                                      set_edge other member_id net_balance (original_debts L1)\<rparr>)
                          else if net_balance < - eps then
                            (case find (\<lambda>other. other \<noteq> member_id) (members L1) of
                               None \<Rightarrow> L1
                             | Some other \<Rightarrow>
                                 L1\<lparr>original_debts :=
                                      set_edge member_id other (- net_balance) (original_debts L1)\<rparr>)
                          else L1)
                   in snd (optimized_payment_process L2))
                else L)
         in remove_member member_id L3))"

text \<open>The net balance of a member over \<open>original_debts\<close>.\<close>

definition net_balance :: "ledger \<Rightarrow> string \<Rightarrow> amount" where
  "net_balance L m = fst (get_net_balance (members L) m (original_debts L))"

text \<open>The amount on the edge from \<open>a\<close> to \<open>b\<close> of a graph, 0 when there is none.\<close>

definition entry :: "graph \<Rightarrow> string \<Rightarrow> string \<Rightarrow> amount" where
  "entry g a b = getitem 0 b (getitem [] a g)"

section \<open>The information hub (\<open>core/info_hub.py\<close>)\<close>

text \<open>
  Python list indexing \<open>xs[i]\<close> and assignment \<open>xs[i] = v\<close>: a negative index counts
  from the end, \<open>None\<close> stands for \<open>IndexError\<close>.
\<close>

definition py_getitem :: "'a list \<Rightarrow> int \<Rightarrow> 'a option" where
  "py_getitem xs i =
     (let n = int (length xs); j = (if i < 0 then n + i else i)
      in if 0 \<le> j \<and> j < n then Some (xs ! nat j) else None)"

definition py_setitem :: "'a list \<Rightarrow> int \<Rightarrow> 'a \<Rightarrow> 'a list option" where
  "py_setitem xs i v =
     (let n = int (length xs); j = (if i < 0 then n + i else i)
      in if 0 \<le> j \<and> j < n then Some (xs[nat j := v]) else None)"

text \<open>\<open>del xs[i]\<close> for an index in range.\<close>

definition del_at :: "nat \<Rightarrow> 'a list \<Rightarrow> 'a list" where
  "del_at i xs = take i xs @ drop (Suc i) xs"

record information =
  title :: string
  content :: string
  info_id :: int
  deleted :: bool

type_synonym posting = "int \<times> nat"

type_synonym index = "(string \<times> posting list) list"

type_synonym word_sets = "(int \<times> string list) list"

record hub =
  documents :: "information option list"
  next_id :: int
  hub_group_id :: string
  group_prefix :: int
  deleted_ids :: "int list"
  title_index :: index
  content_index :: index
  doc_title_words :: word_sets
  doc_content_words :: word_sets

text \<open>
  \<open>__init__\<close>; \<open>hash_value\<close> stands for \<open>hash(group_id)\<close>, which the interpreter chooses.
\<close>

definition init_hub :: "string \<Rightarrow> int \<Rightarrow> hub" where
  "init_hub gid hash_value =
     \<lparr>documents = [], next_id = 1, hub_group_id = gid,
      group_prefix = \<bar>hash_value\<bar> mod 1000, deleted_ids = [],
      title_index = [], content_index = [],
      doc_title_words = [], doc_content_words = []\<rparr>"

text \<open>
  \<open>_tokenize\<close> on ASCII text: \<open>re.findall(r'\b\w+\b', text.lower())\<close> returns the maximal
  runs of letters, digits and underscores of the lower-cased text. The properties of the
  hub proved below use only that the tokens are a function of the text; the concrete
  tokens matter where a call is evaluated.
\<close>

definition is_word_char :: "char \<Rightarrow> bool" where
  "is_word_char c =
     (let n = (of_char c :: nat)
      in (48 \<le> n \<and> n \<le> 57) \<or> (65 \<le> n \<and> n \<le> 90) \<or> n = 95 \<or> (97 \<le> n \<and> n \<le> 122))"

definition lower_char :: "char \<Rightarrow> char" where
  "lower_char c =
     (let n = (of_char c :: nat) in if 65 \<le> n \<and> n \<le> 90 then char_of (n + 32) else c)"

fun word_runs :: "string \<Rightarrow> string \<Rightarrow> string list" where
  "word_runs cur [] = (if cur = [] then [] else [cur])"
| "word_runs cur (c # cs) =
     (if is_word_char c then word_runs (cur @ [c]) cs
      else if cur = [] then word_runs [] cs
      else cur # word_runs [] cs)"

definition tokenize :: "string \<Rightarrow> string list" where
  "tokenize text = word_runs [] (map lower_char text)"

text \<open>
  \<open>bisect\<close>: the binary search of the standard library. A search key is a pair of a
  document id and a position that may be \<open>float('inf')\<close>; pairs compare lexicographically.
  \<open>bisect_left\<close> moves right while \<open>a[mid] < x\<close>, \<open>bisect_right\<close> while \<open>not x < a[mid]\<close>.
\<close>

definition key_of :: "posting \<Rightarrow> int \<times> enat" where
  "key_of e = (fst e, enat (snd e))"

function bisect_loop :: "('a \<Rightarrow> bool) \<Rightarrow> 'a list \<Rightarrow> nat \<Rightarrow> nat \<Rightarrow> nat" where
  "bisect_loop go_right a lo hi =
     (if lo < hi then
        (let mid = (lo + hi) div 2
         in if go_right (a ! mid) then bisect_loop go_right a (mid + 1) hi
            else bisect_loop go_right a lo mid)
      else lo)"
  by pat_completeness auto
termination
  by (relation "measure (\<lambda>(go_right, a, lo, hi). hi - lo)") auto

declare bisect_loop.simps [simp del]

definition bisect_left :: "posting list \<Rightarrow> int \<times> enat \<Rightarrow> nat" where
  "bisect_left a x = bisect_loop (\<lambda>e. key_of e < x) a 0 (length a)"

definition bisect_right :: "posting list \<Rightarrow> int \<times> enat \<Rightarrow> nat" where
  "bisect_right a x = bisect_loop (\<lambda>e. \<not> x < key_of e) a 0 (length a)"

definition insort :: "posting list \<Rightarrow> posting \<Rightarrow> posting list" where
  "insort a x = (let i = bisect_right a (key_of x) in take i a @ x # drop i a)"

definition allocate_id :: "hub \<Rightarrow> int outcome \<times> hub" where
  "allocate_id h =
     (if deleted_ids h \<noteq> [] then
        (Returned (hd (deleted_ids h)), h\<lparr>deleted_ids := tl (deleted_ids h)\<rparr>)
      else
        (let id_val = next_id h;
             h1 = h\<lparr>next_id := next_id h + 1\<rparr>
         in if id_val > 999 then (Raised OverflowError, h1)
            else (Returned (group_prefix h1 * 1000 + id_val), h1)))"

text \<open>
  The indexing loop over \<open>enumerate(words)\<close>: an ordered insert into the posting list of
  the word, and the word added to the document's word set.
\<close>

definition index_word :: "int \<Rightarrow> nat \<times> string \<Rightarrow> index \<times> word_sets \<Rightarrow> index \<times> word_sets" where
  "index_word doc_id pw s =
     (let pos = fst pw; word = snd pw;
          idx = vivify [] word (fst s);
          idx1 = AList.update word (insort (getitem [] word idx) (doc_id, pos)) idx;
          ws = vivify [] doc_id (snd s);
          ws1 = AList.update doc_id (set_add word (getitem [] doc_id ws)) ws
      in (idx1, ws1))"

definition index_words :: "int \<Rightarrow> string list \<Rightarrow> index \<times> word_sets \<Rightarrow> index \<times> word_sets" where
  "index_words doc_id words s = fold (index_word doc_id) (List.enumerate 0 words) s"

definition add_document :: "string \<Rightarrow> string \<Rightarrow> hub \<Rightarrow> int outcome \<times> hub" where
  "add_document t c h =
     (case allocate_id h of
        (Raised e, h1) \<Rightarrow> (Raised e, h1)
      | (Returned doc_id, h1) \<Rightarrow>
          (let padded = documents h1
                 @ replicate (nat (doc_id - int (length (documents h1)))) None;
               h2 = h1\<lparr>documents := padded\<rparr>;
               doc = \<lparr>title = t, content = c, info_id = doc_id, deleted = False\<rparr>
           in case py_setitem padded (doc_id - 1) (Some doc) of
                None \<Rightarrow> (Raised IndexError, h2)
              | Some docs \<Rightarrow>
                  (let (ti, tw) = index_words doc_id (tokenize t)
                                    (title_index h2, doc_title_words h2);
                       (ci, cw) = index_words doc_id (tokenize c)
                                    (content_index h2, doc_content_words h2)
                   in (Returned doc_id,
                       h2\<lparr>documents := docs, title_index := ti, doc_title_words := tw,
                          content_index := ci, doc_content_words := cw\<rparr>))))"

text \<open>
  The removal loop that \<open>delete_document\<close> and \<open>update_document\<close> run on each index, for one
  word: the postings between the two bisection points are deleted from the back, and the
  word is dropped from the index when no posting is left.
\<close>

definition remove_word :: "int \<Rightarrow> string \<Rightarrow> index \<Rightarrow> index" where
  "remove_word doc_id word idx =
     (let idx1 = vivify [] word idx;
          entries = getitem [] word idx1;
          left = bisect_left entries (doc_id, 0);
          right = bisect_right entries (doc_id, \<infinity>);
          entries1 = fold del_at (rev [left..<right]) entries;
          idx2 = AList.update word entries1 idx1
      in if entries1 = [] then AList.delete word idx2 else idx2)"

text \<open>\<open>for word in words[doc_id]: ...\<close> through the \<open>defaultdict\<close> of word sets.\<close>

definition remove_words :: "int \<Rightarrow> index \<times> word_sets \<Rightarrow> index \<times> word_sets" where
  "remove_words doc_id s =
     (let ws = vivify [] doc_id (snd s)
      in (fold (remove_word doc_id) (getitem [] doc_id ws) (fst s), ws))"

text \<open>The guard shared by \<open>delete_document\<close>, \<open>update_document\<close> and \<open>get_document\<close>.\<close>

definition slot :: "hub \<Rightarrow> int \<Rightarrow> information option" where
  "slot h doc_id =
     (if doc_id < 1 \<or> doc_id > int (length (documents h)) then None
      else documents h ! nat (doc_id - 1))"

definition delete_document :: "int \<Rightarrow> hub \<Rightarrow> bool \<times> hub" where
  "delete_document doc_id h =
     (case slot h doc_id of
        None \<Rightarrow> (False, h)
      | Some doc \<Rightarrow>
          if deleted doc then (False, h)
          else
            (let docs = (documents h)[nat (doc_id - 1) := Some (doc\<lparr>deleted := True\<rparr>)];
                 (ti, tw) = remove_words doc_id (title_index h, doc_title_words h);
                 (ci, cw) = remove_words doc_id (content_index h, doc_content_words h)
             in (True,
                 h\<lparr>documents := docs, title_index := ti, content_index := ci,
                   doc_title_words := AList.delete doc_id tw,
                   doc_content_words := AList.delete doc_id cw,
                   deleted_ids := set_add doc_id (deleted_ids h)\<rparr>)))"

definition update_document :: "int \<Rightarrow> string option \<Rightarrow> string option \<Rightarrow> hub \<Rightarrow> bool \<times> hub" where
  "update_document doc_id t c h =
     (case slot h doc_id of
        None \<Rightarrow> (False, h)
      | Some doc \<Rightarrow>
          if deleted doc then (False, h)
          else
            (let (ti, tw) = remove_words doc_id (title_index h, doc_title_words h);
                 (ci, cw) = remove_words doc_id (content_index h, doc_content_words h);
                 tw1 = AList.update doc_id [] tw;
                 cw1 = AList.update doc_id [] cw;
                 doc1 = (case t of None \<Rightarrow> doc | Some t' \<Rightarrow> doc\<lparr>title := t'\<rparr>);
                 doc2 = (case c of None \<Rightarrow> doc1 | Some c' \<Rightarrow> doc1\<lparr>content := c'\<rparr>);
                 docs = (documents h)[nat (doc_id - 1) := Some doc2];
                 (ti2, tw2) = index_words doc_id (tokenize (title doc2)) (ti, tw1);
                 (ci2, cw2) = index_words doc_id (tokenize (content doc2)) (ci, cw1)
             in (True,
                 h\<lparr>documents := docs, title_index := ti2, content_index := ci2,
                   doc_title_words := tw2, doc_content_words := cw2\<rparr>)))"

definition get_document :: "int \<Rightarrow> hub \<Rightarrow> information option" where
  "get_document doc_id h =
     (case slot h doc_id of
        None \<Rightarrow> None
      | Some doc \<Rightarrow> if deleted doc then None else Some doc)"

text \<open>
  \<open>_filter_deleted\<close> has no lower bound on the id, so it reads \<open>documents[doc_id - 1]\<close>
  with Python's indexing; \<open>None\<close> stands for the \<open>IndexError\<close> of that read.
\<close>

fun filter_deleted :: "hub \<Rightarrow> int list \<Rightarrow> int list option" where
  "filter_deleted h [] = Some []"
| "filter_deleted h (doc_id # rest) =
     (if doc_id \<le> int (length (documents h)) then
        (case py_getitem (documents h) (doc_id - 1) of
           None \<Rightarrow> None
         | Some None \<Rightarrow> filter_deleted h rest
         | Some (Some doc) \<Rightarrow>
             if deleted doc then filter_deleted h rest
             else map_option ((#) doc_id) (filter_deleted h rest))
      else filter_deleted h rest)"

text \<open>The set of document ids of a word in an index: \<open>in\<close> does not insert the word.\<close>

definition matches :: "index \<Rightarrow> string \<Rightarrow> int list" where
  "matches idx search_term =
     (case map_of idx search_term of
        None \<Rightarrow> []
      | Some entries \<Rightarrow> remdups (map fst entries))"

text \<open>The ids of the result of \<open>search\<close>, in the order of the result.\<close>

definition search_ids :: "string \<Rightarrow> hub \<Rightarrow> int list outcome" where
  "search_ids keyword h =
     (case tokenize keyword of
        [] \<Rightarrow> Returned []
      | search_term # _ \<Rightarrow>
          (let title_matches = matches (title_index h) search_term;
               content_matches = matches (content_index h) search_term;
               content_only_matches = filter (\<lambda>d. d \<notin> set title_matches) content_matches
           in case filter_deleted h title_matches of
                None \<Rightarrow> Raised IndexError
              | Some tm \<Rightarrow>
                  (case filter_deleted h content_only_matches of
                     None \<Rightarrow> Raised IndexError
                   | Some cm \<Rightarrow> Returned (tm @ cm))))"

definition search :: "string \<Rightarrow> hub \<Rightarrow> information list outcome" where
  "search keyword h =
     (case search_ids keyword h of
        Raised e \<Rightarrow> Raised e
      | Returned ids \<Rightarrow>
          Returned (List.map_filter
                      (\<lambda>doc_id. case py_getitem (documents h) (doc_id - 1) of
                                   None \<Rightarrow> None | Some d \<Rightarrow> d)
                      ids))"

text \<open>The states a hub goes through: any calls of the three mutating operations.\<close>

inductive reachable :: "hub \<Rightarrow> bool" where
  reach_init: "reachable (init_hub gid hash_value)"
| reach_add: "reachable h \<Longrightarrow> reachable (snd (add_document t c h))"
| reach_update: "reachable h \<Longrightarrow> reachable (snd (update_document doc_id t' c' h))"
| reach_delete: "reachable h \<Longrightarrow> reachable (snd (delete_document doc_id h))"

text \<open>\<open>n\<close> successive calls \<open>add_document(t, c)\<close>.\<close>

primrec add_documents :: "nat \<Rightarrow> string \<Rightarrow> string \<Rightarrow> hub \<Rightarrow> hub" where
  "add_documents 0 t c h = h"
| "add_documents (Suc n) t c h = add_documents n t c (snd (add_document t c h))"

text \<open>
  What allocation relies on: the sequence number and the ids in the pool are positive, the
  prefix of the group is not negative.
\<close>

definition alloc_ok :: "hub \<Rightarrow> bool" where
  "alloc_ok h \<longleftrightarrow> 1 \<le> next_id h \<and> 0 \<le> group_prefix h \<and> (\<forall>d\<in>set (deleted_ids h). 1 \<le> d)"

text \<open>The tokens of a field of the live document with id \<open>d\<close>, if there is one.\<close>

definition doc_tokens :: "(information \<Rightarrow> string) \<Rightarrow> hub \<Rightarrow> int \<Rightarrow> string list option" where
  "doc_tokens f h d = map_option (\<lambda>doc. tokenize (f doc)) (get_document d h)"

text \<open>
  An index and its word sets agree with the tokens \<open>T\<close> of the live documents: every
  posting list is strictly increasing and not empty, the postings of a word are the
  places where the word stands in a live document, and the word set of a live document
  holds its tokens.
\<close>

definition postings_ok :: "(int \<Rightarrow> string list option) \<Rightarrow> index \<Rightarrow> word_sets \<Rightarrow> bool" where
  "postings_ok T idx ws \<longleftrightarrow>
     (\<forall>w. sorted (getitem [] w idx) \<and> distinct (getitem [] w idx)) \<and>
     (\<forall>w d p. (d, p) \<in> set (getitem [] w idx) \<longleftrightarrow>
        (\<exists>toks. T d = Some toks \<and> p < length toks \<and> toks ! p = w)) \<and>
     (\<forall>d toks. T d = Some toks \<longrightarrow> set toks \<subseteq> set (getitem [] d ws)) \<and>
     (\<forall>w. map_of idx w \<noteq> Some [])"

text \<open>
  The invariant of the hub: allocation is sound, the pool holds each id once and only ids
  of tombstoned documents, the document in slot \<open>d\<close> carries the id \<open>d\<close> and is below the
  next fresh id, and both indexes agree with the live documents.
\<close>

definition hub_inv :: "hub \<Rightarrow> bool" where
  "hub_inv h \<longleftrightarrow>
     alloc_ok h \<and> distinct (deleted_ids h) \<and>
     (\<forall>d\<in>set (deleted_ids h). \<exists>doc. slot h d = Some doc \<and> deleted doc) \<and>
     (\<forall>d doc. slot h d = Some doc \<longrightarrow>
        info_id doc = d \<and> d < group_prefix h * 1000 + next_id h) \<and>
     postings_ok (doc_tokens title h) (title_index h) (doc_title_words h) \<and>
     postings_ok (doc_tokens content h) (content_index h) (doc_content_words h)"



section \<open>Properties of the debt ledger\<close>

subsection \<open>Reading through a \<open>defaultdict\<close>\<close>

lemma map_of_vivify:
  "map_of (vivify dflt k d) =
     (case map_of d k of None \<Rightarrow> (map_of d)(k \<mapsto> dflt) | Some v \<Rightarrow> map_of d)"
  by (auto simp: vivify_def fun_eq_iff map_add_def split: option.splits)

lemma getitem_vivify [simp]: "getitem dflt k' (vivify dflt k d) = getitem dflt k' d"
  by (simp add: getitem_def map_of_vivify split: option.splits)

lemma getitem_fold_vivify [simp]: "getitem dflt k (fold (vivify dflt) ks d) = getitem dflt k d"
  by (induction ks arbitrary: d) simp_all

lemma vivify_idem [simp]: "vivify dflt k (vivify dflt k d) = vivify dflt k d"
  by (auto simp: vivify_def split: option.splits)

lemma fold_add_vivify:
  fixes n0 :: amount
  shows "fold (\<lambda>other (net, g). (net + f (getitem [] other g), vivify [] other g)) ms (n0, g0)
   = (n0 + sum_list (map (\<lambda>other. f (getitem [] other g0)) ms), fold (vivify []) ms g0)"
proof (induction ms arbitrary: n0 g0)
  case Nil
  then show ?case by simp
next
  case (Cons m ms)
  show ?case by (simp add: Cons.IH add.assoc)
qed

lemma fold_sub_vivify:
  fixes n0 :: amount
  shows "fold (\<lambda>other (net, g). (net - f other (getitem [] k g), vivify [] k g)) ms (n0, g0)
   = (n0 - sum_list (map (\<lambda>other. f other (getitem [] k g0)) ms),
      if ms = [] then g0 else vivify [] k g0)"
proof (induction ms arbitrary: n0 g0)
  case Nil
  then show ?case by simp
next
  case (Cons m ms)
  show ?case by (simp add: Cons.IH algebra_simps)
qed

text \<open>The balance is incoming minus outgoing amounts; the graph gains only empty rows.\<close>

lemma get_net_balance_eq:
  "get_net_balance ms m g =
     (sum_list (map (\<lambda>other. entry g other m) ms) - sum_list (map (\<lambda>other. entry g m other) ms),
      if ms = [] then g else vivify [] m (fold (vivify []) ms g))"
  unfolding get_net_balance_def Let_def entry_def
  by (simp add: fold_add_vivify fold_sub_vivify[where f="\<lambda>other r. getitem 0 other r"])

subsection \<open>Removal of a member\<close>

text \<open>
  C3, as the code has it. When \<open>member_id\<close> is unknown, \<open>remove_member\<close> returns \<open>False\<close>
  and the ledger is untouched. When the absolute net balance of a member exceeds \<open>1e-9\<close>,
  \<open>remove_member\<close> raises \<open>ValueError\<close>; \<open>members\<close> and \<open>optimized_debts\<close> are exactly as
  before, and every row of \<open>original_debts\<close> reads as before (a missing row reads as the
  empty row): reading the balance through the \<open>defaultdict\<close> can only add empty rows.
\<close>

theorem remove_member_failure_preserves:
  assumes "m \<notin> set (members L) \<or> eps < \<bar>net_balance L m\<bar>"
  shows "(m \<notin> set (members L) \<longrightarrow> remove_member m L = (Returned False, L))
       \<and> (m \<in> set (members L) \<longrightarrow> fst (remove_member m L) = Raised ValueError)
       \<and> members (snd (remove_member m L)) = members L
       \<and> optimized_debts (snd (remove_member m L)) = optimized_debts L
       \<and> (\<forall>a. getitem [] a (original_debts (snd (remove_member m L)))
              = getitem [] a (original_debts L))"
proof (cases "m \<in> set (members L)")
  case False
  then show ?thesis by (simp add: remove_member_def)
next
  case True
  then have big: "eps < \<bar>net_balance L m\<bar>" using assms by simp
  have ne: "members L \<noteq> []" using True by auto
  have "remove_member m L =
      (Raised ValueError,
       L\<lparr>original_debts := vivify [] m (fold (vivify []) (members L) (original_debts L))\<rparr>)"
    using True big ne
    by (simp add: remove_member_def net_balance_def get_net_balance_eq)
  then show ?thesis using True by simp
qed

theorem remove_member_failure_preserves_witness:
  "eps < \<bar>net_balance (update ''A'' ''B'' 5 (init_ledger ''g'')) ''A''\<bar>
   \<and> fst (remove_member ''A'' (update ''A'' ''B'' 5 (init_ledger ''g''))) = Raised ValueError
   \<and> members (snd (remove_member ''A'' (update ''A'' ''B'' 5 (init_ledger ''g''))))
       = members (update ''A'' ''B'' 5 (init_ledger ''g''))"
proof -
  let ?L = "update ''A'' ''B'' 5 (init_ledger ''g'')"
  have big: "eps < \<bar>net_balance ?L ''A''\<bar>" by code_simp
  have known: "''A'' \<in> set (members ?L)" by code_simp
  from big have "''A'' \<notin> set (members ?L) \<or> eps < \<bar>net_balance ?L ''A''\<bar>" by (rule disjI2)
  from remove_member_failure_preserves [OF this] known big show ?thesis by blast
qed

text \<open>
  The claim as stated asks for \<open>original_debts\<close> to be exactly as before. After
  \<open>update("A", "B", 5)\<close> the call \<open>remove_member("A")\<close> fails on the balance -5 and has
  added the empty row of \<open>"B"\<close> to \<open>original_debts\<close>.
\<close>

theorem remove_member_failure_counterexample:
  "eps < \<bar>net_balance (update ''A'' ''B'' 5 (init_ledger ''g'')) ''A''\<bar>
   \<and> fst (remove_member ''A'' (update ''A'' ''B'' 5 (init_ledger ''g''))) = Raised ValueError
   \<and> original_debts (update ''A'' ''B'' 5 (init_ledger ''g'')) = [(''A'', [(''B'', 5)])]
   \<and> original_debts (snd (remove_member ''A'' (update ''A'' ''B'' 5 (init_ledger ''g''))))
       = [(''A'', [(''B'', 5)]), (''B'', [])]"
  by code_simp

text \<open>
  C4. \<open>force_remove_member(id, settle_first=True)\<close> is to zero the balance of \<open>id\<close> with one
  corrective edge and then remove \<open>id\<close>. After \<open>update("A", "B", 100)\<close>, member \<open>"B"\<close> is owed
  100; the corrective edge is written from \<open>"A"\<close> to \<open>"B"\<close> with weight 100, which is the edge
  that is already there, so the balance of \<open>"B"\<close> stays 100 and the removal raises
  \<open>ValueError\<close>. The same happens for the debtor \<open>"A"\<close>.
\<close>

theorem force_remove_member_does_not_settle:
  "force_remove_member ''B'' True (update ''A'' ''B'' 100 (init_ledger ''g''))
     = (Raised ValueError,
        \<lparr>original_debts = [(''A'', [(''B'', 100)]), (''B'', [])],
         optimized_debts = [(''A'', [(''B'', 100)])],
         members = [''A'', ''B''], group_id = ''g''\<rparr>)
   \<and> fst (force_remove_member ''A'' True (update ''A'' ''B'' 100 (init_ledger ''g'')))
     = Raised ValueError
   \<and> net_balance (snd (force_remove_member ''B'' True
        (update ''A'' ''B'' 100 (init_ledger ''g'')))) ''B'' = 100"
  by code_simp

text \<open>
  C10. The self-loop \<open>update(m, m, a)\<close> registers \<open>m\<close> and leaves the balance of \<open>m\<close> at
  zero, but \<open>remove_member(m)\<close> then fails: its loop deletes the key \<open>m\<close> of the row of \<open>m\<close>
  twice, and the second \<open>del\<close> raises \<open>KeyError\<close>, after \<open>m\<close> has left \<open>members\<close>.
\<close>

theorem self_loop_member_cannot_be_removed:
  "members (update ''m'' ''m'' 5 (init_ledger ''g'')) = [''m'']
   \<and> net_balance (update ''m'' ''m'' 5 (init_ledger ''g'')) ''m'' = 0
   \<and> remove_member ''m'' (update ''m'' ''m'' 5 (init_ledger ''g''))
     = (Raised KeyError,
        \<lparr>original_debts = [(''m'', [])], optimized_debts = [], members = [],
         group_id = ''g''\<rparr>)"
  by code_simp

section \<open>Properties of the information hub\<close>

subsection \<open>Bisection and ordered insertion\<close>

lemma getitem_update:
  "getitem dflt k' (AList.update k v d) = (if k' = k then v else getitem dflt k' d)"
  by (simp add: getitem_def update_conv')

text \<open>
  The binary search on a list on which the test holds on a prefix: it returns the length
  of that prefix.
\<close>

lemma bisect_loop_bounds:
  "lo \<le> hi \<Longrightarrow> lo \<le> bisect_loop P a lo hi \<and> bisect_loop P a lo hi \<le> hi"
proof (induction P a lo hi rule: bisect_loop.induct)
  case (1 P a lo hi)
  show ?case
  proof (cases "lo < hi")
    case False
    then show ?thesis using "1.prems" by (subst bisect_loop.simps, subst bisect_loop.simps) simp
  next
    case True
    let ?mid = "(lo + hi) div 2"
    have m: "lo \<le> ?mid" "?mid < hi" using True by simp_all
    show ?thesis
    proof (cases "P (a ! ?mid)")
      case True
      have "?mid + 1 \<le> bisect_loop P a (?mid + 1) hi \<and> bisect_loop P a (?mid + 1) hi \<le> hi"
        using "1.IH"(1)[OF \<open>lo < hi\<close> refl True] m by simp
      then show ?thesis using \<open>lo < hi\<close> True m
        by (subst bisect_loop.simps, subst bisect_loop.simps) (simp add: Let_def)
    next
      case False
      have "lo \<le> bisect_loop P a lo ?mid \<and> bisect_loop P a lo ?mid \<le> ?mid"
        using "1.IH"(2)[OF \<open>lo < hi\<close> refl False] m by simp
      then show ?thesis using \<open>lo < hi\<close> False m
        by (subst bisect_loop.simps, subst bisect_loop.simps) (simp add: Let_def)
    qed
  qed
qed

lemma bisect_loop_split:
  assumes "lo \<le> hi" "hi \<le> length a"
    and "\<forall>i j. i \<le> j \<longrightarrow> j < length a \<longrightarrow> P (a ! j) \<longrightarrow> P (a ! i)"
    and "\<forall>j < lo. P (a ! j)" and "\<forall>j. hi \<le> j \<longrightarrow> j < length a \<longrightarrow> \<not> P (a ! j)"
  shows "(\<forall>j < bisect_loop P a lo hi. P (a ! j))
       \<and> (\<forall>j. bisect_loop P a lo hi \<le> j \<longrightarrow> j < length a \<longrightarrow> \<not> P (a ! j))"
  using assms
proof (induction P a lo hi rule: bisect_loop.induct)
  case (1 P a lo hi)
  show ?case
  proof (cases "lo < hi")
    case False
    then have "lo = hi" using "1.prems"(1) by simp
    moreover have "bisect_loop P a lo hi = lo" using False by (subst bisect_loop.simps) simp
    ultimately show ?thesis using "1.prems"(4,5) by simp
  next
    case lt: True
    let ?mid = "(lo + hi) div 2"
    have m: "lo \<le> ?mid" "?mid < hi" using lt by simp_all
    show ?thesis
    proof (cases "P (a ! ?mid)")
      case True
      have below: "\<forall>j < ?mid + 1. P (a ! j)"
      proof (intro allI impI)
        fix j assume "j < ?mid + 1"
        then have "j \<le> ?mid" by simp
        moreover have "?mid < length a" using m "1.prems"(2) by simp
        ultimately show "P (a ! j)" using "1.prems"(3) True by blast
      qed
      have eq: "bisect_loop P a lo hi = bisect_loop P a (?mid + 1) hi"
        using lt True by (subst bisect_loop.simps) (simp add: Let_def)
      show ?thesis unfolding eq
        using "1.IH"(1)[OF lt refl True _ "1.prems"(2,3) below "1.prems"(5)] m by simp
    next
      case False
      have above: "\<forall>j. ?mid \<le> j \<longrightarrow> j < length a \<longrightarrow> \<not> P (a ! j)"
        using "1.prems"(3) False by blast
      have eq: "bisect_loop P a lo hi = bisect_loop P a lo ?mid"
        using lt False by (subst bisect_loop.simps) (simp add: Let_def)
      have "?mid \<le> length a" using m "1.prems"(2) by simp
      then show ?thesis unfolding eq
        using "1.IH"(2)[OF lt refl False m(1) _ "1.prems"(3,4) above] by simp
    qed
  qed
qed

lemma bisect_loop_filter:
  assumes "\<forall>i j. i \<le> j \<longrightarrow> j < length a \<longrightarrow> P (a ! j) \<longrightarrow> P (a ! i)"
  shows "bisect_loop P a 0 (length a) \<le> length a"
    and "take (bisect_loop P a 0 (length a)) a = filter P a"
    and "drop (bisect_loop P a 0 (length a)) a = filter (\<lambda>e. \<not> P e) a"
proof -
  let ?r = "bisect_loop P a 0 (length a)"
  show le: "?r \<le> length a" using bisect_loop_bounds[of 0 "length a" P a] by simp
  have sp: "(\<forall>j < ?r. P (a ! j)) \<and> (\<forall>j. ?r \<le> j \<longrightarrow> j < length a \<longrightarrow> \<not> P (a ! j))"
    using bisect_loop_split[of 0 "length a" a P] assms by simp
  have t: "\<forall>x\<in>set (take ?r a). P x"
  proof
    fix x assume "x \<in> set (take ?r a)"
    then obtain j where "j < ?r" "x = a ! j" using le
      by (auto simp: in_set_conv_nth)
    then show "P x" using sp by simp
  qed
  have d: "\<forall>x\<in>set (drop ?r a). \<not> P x"
  proof
    fix x assume "x \<in> set (drop ?r a)"
    then obtain j where "j < length a - ?r" "x = a ! (?r + j)"
      by (auto simp: in_set_conv_nth)
    then show "\<not> P x" using sp by simp
  qed
  have a: "a = take ?r a @ drop ?r a" by simp
  have "filter P a = filter P (take ?r a) @ filter P (drop ?r a)"
    by (subst a) (simp only: filter_append)
  also have "\<dots> = take ?r a" using t d by (simp add: filter_id_conv filter_empty_conv)
  finally show "take ?r a = filter P a" by simp
  have "filter (\<lambda>e. \<not> P e) a = filter (\<lambda>e. \<not> P e) (take ?r a) @ filter (\<lambda>e. \<not> P e) (drop ?r a)"
    by (subst a) (simp only: filter_append)
  also have "\<dots> = drop ?r a" using t d by (simp add: filter_id_conv filter_empty_conv)
  finally show "drop ?r a = filter (\<lambda>e. \<not> P e) a" by simp
qed

lemma key_of_less [simp]: "key_of e < key_of x \<longleftrightarrow> e < x"
  by (cases e; cases x) (simp add: key_of_def less_prod_def)

lemma key_of_below_doc [simp]: "key_of e < (d, 0) \<longleftrightarrow> fst e < d"
  by (cases e) (auto simp: key_of_def less_prod_def zero_enat_def)

lemma key_of_above_doc [simp]: "(d, \<infinity>) < key_of e \<longleftrightarrow> d < fst e"
  by (cases e) (auto simp: key_of_def less_prod_def)

lemma fst_mono_posting: "(e :: posting) \<le> e' \<Longrightarrow> fst e \<le> fst e'"
  by (cases e; cases e') (auto simp: less_eq_prod_def)

lemma sorted_prefix_closed:
  fixes a :: "posting list"
  assumes "sorted a" "\<And>e e'. e \<le> e' \<Longrightarrow> P e' \<Longrightarrow> P e"
  shows "\<forall>i j. i \<le> j \<longrightarrow> j < length a \<longrightarrow> P (a ! j) \<longrightarrow> P (a ! i)"
  using assms by (meson sorted_iff_nth_mono)

lemma bisect_right_sorted:
  assumes "sorted a"
  shows "take (bisect_right a (key_of x)) a = filter (\<lambda>e. e \<le> x) a"
    and "drop (bisect_right a (key_of x)) a = filter (\<lambda>e. x < e) a"
proof -
  have pc: "\<forall>i j. i \<le> j \<longrightarrow> j < length a \<longrightarrow> (\<not> key_of x < key_of (a ! j))
      \<longrightarrow> (\<not> key_of x < key_of (a ! i))"
    by (rule sorted_prefix_closed[OF assms]) (simp add: not_less)
  show "take (bisect_right a (key_of x)) a = filter (\<lambda>e. e \<le> x) a"
    unfolding bisect_right_def using bisect_loop_filter(2)[OF pc] by (simp add: not_less)
  show "drop (bisect_right a (key_of x)) a = filter (\<lambda>e. x < e) a"
    unfolding bisect_right_def using bisect_loop_filter(3)[OF pc] by simp
qed

lemma set_insort [simp]: "set (insort a x) = insert x (set a)"
proof -
  have "set (take i a) \<union> set (drop i a) = set a" for i
    by (metis append_take_drop_id set_append)
  then show ?thesis by (auto simp: insort_def Let_def)
qed

lemma length_insort [simp]: "length (insort a x) = Suc (length a)"
  by (simp add: insort_def Let_def)

lemma sorted_insort:
  assumes "sorted a"
  shows "sorted (insort a x)"
proof -
  let ?lo = "filter (\<lambda>e. e \<le> x) a" and ?hi = "filter (\<lambda>e. x < e) a"
  have eq: "insort a x = ?lo @ x # ?hi"
    unfolding insort_def Let_def bisect_right_sorted[OF assms] by simp
  have s1: "sorted ?lo" and s2: "sorted ?hi"
    using assms by (simp_all add: sorted_wrt_filter)
  have lo: "\<forall>e\<in>set ?lo. e \<le> x" by simp
  have hi: "\<forall>e\<in>set ?hi. x \<le> e"
  proof
    fix e' assume "e' \<in> set ?hi"
    then have "x < e'" by simp
    then show "x \<le> e'" by (rule less_imp_le)
  qed
  have cross: "\<forall>e\<in>set ?lo. \<forall>e'\<in>set (x # ?hi). e \<le> e'"
  proof (intro ballI)
    fix e e' assume e: "e \<in> set ?lo" and "e' \<in> set (x # ?hi)"
    then have "e' = x \<or> e' \<in> set ?hi" by (simp only: set_simps insert_iff)
    then have "x \<le> e'" using hi by blast
    moreover have "e \<le> x" using lo e by blast
    ultimately show "e \<le> e'" by (rule order_trans[rotated])
  qed
  have "sorted (x # ?hi)" using s2 hi by (simp only: sorted_simps simp_thms)
  then show ?thesis unfolding eq sorted_append using s1 cross by blast
qed

lemma distinct_insort:
  assumes "distinct a" "x \<notin> set a"
  shows "distinct (insort a x)"
proof -
  let ?i = "bisect_right a (key_of x)"
  have disj: "set (take ?i a) \<inter> set (drop ?i a) = {}"
    using assms(1) by (metis append_take_drop_id distinct_append)
  have dt: "distinct (take ?i a)" and dd: "distinct (drop ?i a)"
    using assms(1) by simp_all
  have xt: "x \<notin> set (take ?i a)" using assms(2) by (meson in_set_takeD)
  have xd: "x \<notin> set (drop ?i a)" using assms(2) by (meson in_set_dropD)
  show ?thesis
    unfolding insort_def Let_def using disj dt dd xt xd by simp
qed

text \<open>Deleting the indices of a range from the back leaves the list around the range.\<close>

lemma fold_del_at_range:
  "l \<le> r \<Longrightarrow> r \<le> length xs \<Longrightarrow> fold del_at (rev [l..<r]) xs = take l xs @ drop r xs"
proof (induction "r - l" arbitrary: r xs)
  case 0
  then show ?case by simp
next
  case (Suc n)
  then obtain r' where r: "r = Suc r'" "l \<le> r'" by (cases r) auto
  have IH: "fold del_at (rev [l..<r']) (del_at r' xs) = take l (del_at r' xs) @ drop r' (del_at r' xs)"
    using Suc.hyps(2) Suc.prems r by (intro Suc.hyps(1)[of r']) (auto simp: del_at_def)
  have "fold del_at (rev [l..<r]) xs = fold del_at (rev [l..<r']) (del_at r' xs)"
    using r by simp
  also have "\<dots> = take l xs @ drop r xs"
    unfolding IH using r Suc.prems by (simp add: del_at_def min_def)
  finally show ?case .
qed

lemma fold_del_at_empty: "r \<le> l \<Longrightarrow> fold del_at (rev [l..<r]) xs = xs"
  by simp

lemma sorted_del_at:
  fixes xs :: "'a::linorder list"
  assumes "sorted xs"
  shows "sorted (del_at i xs)"
proof (cases "i < length xs")
  case True
  have "sorted (take i xs @ xs ! i # drop (Suc i) xs)"
    using assms by (simp only: id_take_nth_drop[OF True, symmetric])
  then show ?thesis unfolding del_at_def by (simp add: sorted_append)
next
  case False
  then show ?thesis using assms by (simp add: del_at_def)
qed

subsection \<open>Removal of the postings of a document\<close>

lemma getitem_delete:
  "getitem dflt k' (AList.delete k d) = (if k' = k then dflt else getitem dflt k' d)"
  by (simp add: getitem_def delete_conv')

lemma bisect_left_doc:
  assumes "sorted a"
  shows "bisect_left a (d, 0) \<le> length a"
    and "take (bisect_left a (d, 0)) a = filter (\<lambda>e. fst e < d) a"
    and "drop (bisect_left a (d, 0)) a = filter (\<lambda>e. \<not> fst e < d) a"
proof -
  have pc: "\<forall>i j. i \<le> j \<longrightarrow> j < length a \<longrightarrow> key_of (a ! j) < (d, 0) \<longrightarrow> key_of (a ! i) < (d, 0)"
    by (rule sorted_prefix_closed[OF assms]) (use fst_mono_posting in fastforce)
  show "bisect_left a (d, 0) \<le> length a"
    unfolding bisect_left_def by (rule bisect_loop_filter(1)[OF pc])
  show "take (bisect_left a (d, 0)) a = filter (\<lambda>e. fst e < d) a"
    unfolding bisect_left_def using bisect_loop_filter(2)[OF pc] by simp
  show "drop (bisect_left a (d, 0)) a = filter (\<lambda>e. \<not> fst e < d) a"
    unfolding bisect_left_def using bisect_loop_filter(3)[OF pc] by simp
qed

lemma bisect_right_doc:
  assumes "sorted a"
  shows "bisect_right a (d, \<infinity>) \<le> length a"
    and "take (bisect_right a (d, \<infinity>)) a = filter (\<lambda>e. fst e \<le> d) a"
    and "drop (bisect_right a (d, \<infinity>)) a = filter (\<lambda>e. d < fst e) a"
proof -
  have pc: "\<forall>i j. i \<le> j \<longrightarrow> j < length a \<longrightarrow> \<not> (d, \<infinity>) < key_of (a ! j)
      \<longrightarrow> \<not> (d, \<infinity>) < key_of (a ! i)"
    by (rule sorted_prefix_closed[OF assms]) (use fst_mono_posting in fastforce)
  show "bisect_right a (d, \<infinity>) \<le> length a"
    unfolding bisect_right_def by (rule bisect_loop_filter(1)[OF pc])
  show "take (bisect_right a (d, \<infinity>)) a = filter (\<lambda>e. fst e \<le> d) a"
    unfolding bisect_right_def using bisect_loop_filter(2)[OF pc] by (simp add: not_less)
  show "drop (bisect_right a (d, \<infinity>)) a = filter (\<lambda>e. d < fst e) a"
    unfolding bisect_right_def using bisect_loop_filter(3)[OF pc] by simp
qed

text \<open>On a sorted posting list the deleted range is exactly the postings of the document.\<close>

lemma remove_range_sorted:
  assumes "sorted a"
  shows "fold del_at (rev [bisect_left a (d, 0)..<bisect_right a (d, \<infinity>)]) a
       = filter (\<lambda>e. fst e \<noteq> d) a"
proof -
  let ?l = "bisect_left a (d, 0)" and ?r = "bisect_right a (d, \<infinity>)"
  note L = bisect_left_doc[OF assms, of d] and R = bisect_right_doc[OF assms, of d]
  have "length (take ?l a) \<le> length (take ?r a)"
    unfolding L(2) R(2)
    by (induction a) auto
  then have lr: "?l \<le> ?r" using L(1) R(1) by simp
  have "fold del_at (rev [?l..<?r]) a = take ?l a @ drop ?r a"
    using lr R(1) by (rule fold_del_at_range)
  also have "\<dots> = filter (\<lambda>e. fst e < d) a @ filter (\<lambda>e. d < fst e) a"
    unfolding L(2) R(3) ..
  also have "\<dots> = filter (\<lambda>e. fst e \<noteq> d) a"
    using assms
  proof (induction a)
    case Nil
    then show ?case by simp
  next
    case (Cons e a)
    have s: "sorted a" and le: "\<forall>e'\<in>set a. e \<le> e'" using Cons.prems by simp_all
    show ?case
    proof (cases "d < fst e")
      case True
      have "\<forall>e'\<in>set a. \<not> fst e' < d"
      proof
        fix e' assume "e' \<in> set a"
        then have "fst e \<le> fst e'" using le fst_mono_posting by blast
        then show "\<not> fst e' < d" using True by simp
      qed
      then have "filter (\<lambda>e. fst e < d) a = []" by (simp add: filter_empty_conv)
      moreover have "filter (\<lambda>e. d < fst e) a = filter (\<lambda>e. fst e \<noteq> d) a"
        using Cons.IH[OF s] calculation by simp
      ultimately show ?thesis using True by simp
    next
      case False
      then show ?thesis using Cons.IH[OF s] by auto
    qed
  qed
  finally show ?thesis .
qed

lemma postings_remove_word:
  assumes "sorted (getitem [] w idx)"
  shows "getitem [] w' (remove_word d w idx)
       = (if w' = w then filter (\<lambda>e. fst e \<noteq> d) (getitem [] w idx) else getitem [] w' idx)"
  unfolding remove_word_def Let_def
  by (simp add: remove_range_sorted[OF assms] getitem_delete getitem_update)

lemma postings_fold_remove_word:
  assumes "\<forall>w. sorted (getitem [] w idx)"
  shows "getitem [] w' (fold (remove_word d) wl idx)
       = (if w' \<in> set wl then filter (\<lambda>e. fst e \<noteq> d) (getitem [] w' idx) else getitem [] w' idx)"
  using assms
proof (induction wl arbitrary: idx)
  case Nil
  then show ?case by simp
next
  case (Cons w wl)
  have pw: "\<And>w'. getitem [] w' (remove_word d w idx)
       = (if w' = w then filter (\<lambda>e. fst e \<noteq> d) (getitem [] w idx) else getitem [] w' idx)"
    using Cons.prems by (simp add: postings_remove_word)
  have "\<forall>w'. sorted (getitem [] w' (remove_word d w idx))"
    using Cons.prems by (simp add: pw sorted_wrt_filter)
  then show ?case using Cons.IH[of "remove_word d w idx"] by (simp add: pw)
qed

lemma remove_words_eq:
  assumes "\<forall>w. sorted (getitem [] w idx)"
  shows "getitem [] w' (fst (remove_words d (idx, ws)))
       = (if w' \<in> set (getitem [] d ws) then filter (\<lambda>e. fst e \<noteq> d) (getitem [] w' idx)
          else getitem [] w' idx)"
    and "getitem [] d' (snd (remove_words d (idx, ws))) = getitem [] d' ws"
  using postings_fold_remove_word[OF assms]
  by (simp_all add: remove_words_def Let_def)

subsection \<open>The indexing loop\<close>

lemma set_set_add [simp]: "set (set_add x s) = insert x (set s)"
  by (auto simp: set_add_def)

lemma distinct_set_add: "distinct s \<Longrightarrow> distinct (set_add x s)"
  by (simp add: set_add_def)

lemma index_word_fst:
  "getitem [] w' (fst (index_word d (p, w) s))
     = (if w' = w then insort (getitem [] w (fst s)) (d, p) else getitem [] w' (fst s))"
  by (simp add: index_word_def Let_def getitem_update)

lemma index_word_snd:
  "getitem [] d' (snd (index_word d (p, w) s))
     = (if d' = d then set_add w (getitem [] d (snd s)) else getitem [] d' (snd s))"
  by (simp add: index_word_def Let_def getitem_update)

text \<open>The indexing loop, on any list of (position, word) pairs.\<close>

lemma fold_index_word_set:
  "set (getitem [] w' (fst (fold (index_word d) pws s)))
     = set (getitem [] w' (fst s)) \<union> {(d, p) | p. (p, w') \<in> set pws}"
proof (induction pws arbitrary: s)
  case Nil
  then show ?case by simp
next
  case (Cons pw pws)
  obtain p w where pw: "pw = (p, w)" by (cases pw)
  show ?case unfolding pw
    by (simp add: Cons.IH index_word_fst) blast
qed

lemma fold_index_word_sorted:
  "\<forall>w. sorted (getitem [] w (fst s))
   \<Longrightarrow> sorted (getitem [] w' (fst (fold (index_word d) pws s)))"
proof (induction pws arbitrary: s)
  case Nil
  then show ?case by simp
next
  case (Cons pw pws)
  obtain p w where pw: "pw = (p, w)" by (cases pw)
  have "\<forall>w'. sorted (getitem [] w' (fst (index_word d (p, w) s)))"
    using Cons.prems by (simp add: index_word_fst sorted_insort)
  then show ?case unfolding pw using Cons.IH by simp
qed

lemma fold_index_word_distinct:
  assumes "\<forall>w. distinct (getitem [] w (fst s))"
    and "\<forall>w. \<forall>pw\<in>set pws. (d, fst pw) \<notin> set (getitem [] w (fst s))"
    and "distinct (map fst pws)"
  shows "distinct (getitem [] w' (fst (fold (index_word d) pws s)))"
  using assms
proof (induction pws arbitrary: s)
  case Nil
  then show ?case by simp
next
  case (Cons pw pws)
  obtain p w where pw: "pw = (p, w)" by (cases pw)
  let ?s = "index_word d (p, w) s"
  have fresh: "(d, p) \<notin> set (getitem [] w (fst s))" using Cons.prems(2) pw by simp
  have d1: "\<forall>w'. distinct (getitem [] w' (fst ?s))"
    using Cons.prems(1) fresh by (simp add: index_word_fst distinct_insort)
  have p_notin: "p \<notin> fst ` set pws" using Cons.prems(3) pw by simp
  have d2: "\<forall>w'. \<forall>pw'\<in>set pws. (d, fst pw') \<notin> set (getitem [] w' (fst ?s))"
  proof (intro allI ballI)
    fix w' pw' assume in': "pw' \<in> set pws"
    then have "fst pw' \<noteq> p" using p_notin by auto
    moreover have "(d, fst pw') \<notin> set (getitem [] w' (fst s))"
      using Cons.prems(2) in' by simp
    moreover have "(d, fst pw') \<notin> set (getitem [] w (fst s))"
      using Cons.prems(2) in' by simp
    ultimately show "(d, fst pw') \<notin> set (getitem [] w' (fst ?s))"
      by (simp add: index_word_fst)
  qed
  have d3: "distinct (map fst pws)" using Cons.prems(3) by simp
  show ?case unfolding pw using Cons.IH[OF d1 d2 d3] by simp
qed

lemma fold_index_word_words:
  "set (getitem [] d' (snd (fold (index_word d) pws s)))
     = set (getitem [] d' (snd s)) \<union> (if d' = d then snd ` set pws else {})"
proof (induction pws arbitrary: s)
  case Nil
  then show ?case by simp
next
  case (Cons pw pws)
  obtain p w where pw: "pw = (p, w)" by (cases pw)
  show ?case unfolding pw
    by (simp add: Cons.IH index_word_snd)
qed

lemma set_enumerate0: "set (List.enumerate 0 xs) = {(p, xs ! p) | p. p < length xs}"
  by (auto simp: in_set_enumerate_eq)

lemma index_words_set:
  "set (getitem [] w' (fst (index_words d toks s)))
     = set (getitem [] w' (fst s)) \<union> {(d, p) | p. p < length toks \<and> toks ! p = w'}"
  unfolding index_words_def fold_index_word_set set_enumerate0 by auto

lemma index_words_sorted:
  "\<forall>w. sorted (getitem [] w (fst s)) \<Longrightarrow> sorted (getitem [] w' (fst (index_words d toks s)))"
  unfolding index_words_def by (rule fold_index_word_sorted)

lemma index_words_distinct:
  assumes "\<forall>w. distinct (getitem [] w (fst s))"
    and "\<forall>w p. (d, p) \<notin> set (getitem [] w (fst s))"
  shows "distinct (getitem [] w' (fst (index_words d toks s)))"
  unfolding index_words_def
  using assms by (intro fold_index_word_distinct) simp_all

lemma index_words_words:
  "set (getitem [] d' (snd (index_words d toks s)))
     = set (getitem [] d' (snd s)) \<union> (if d' = d then set toks else {})"
proof -
  have "snd ` set (List.enumerate 0 toks) = set toks"
    by (metis list.set_map map_snd_enumerate)
  then show ?thesis unfolding index_words_def fold_index_word_words by simp
qed

text \<open>The two components of the indexing loop do not depend on each other.\<close>

lemma index_word_indep:
  "fst (index_word d pw (idx, ws)) = fst (index_word d pw (idx, ws'))"
  "snd (index_word d pw (idx, ws)) = snd (index_word d pw (idx', ws))"
  by (simp_all add: index_word_def Let_def)

subsection \<open>Allocation of ids and the document store\<close>

lemma add_document_unfold:
  assumes "allocate_id h = (Returned i, h1)" "1 \<le> i"
  shows "add_document t c h =
     (Returned i,
      h1\<lparr>documents := (documents h1 @ replicate (nat (i - int (length (documents h1)))) None)
                         [nat (i - 1) := Some \<lparr>title = t, content = c, info_id = i, deleted = False\<rparr>],
         title_index := fst (index_words i (tokenize t) (title_index h1, doc_title_words h1)),
         doc_title_words := snd (index_words i (tokenize t) (title_index h1, doc_title_words h1)),
         content_index := fst (index_words i (tokenize c) (content_index h1, doc_content_words h1)),
         doc_content_words := snd (index_words i (tokenize c) (content_index h1, doc_content_words h1))\<rparr>)"
proof -
  let ?padded = "documents h1 @ replicate (nat (i - int (length (documents h1)))) None"
  have "int (length ?padded) \<ge> i" by simp
  then have "py_setitem ?padded (i - 1) v = Some (?padded[nat (i - 1) := v])" for v
    using assms(2) by (simp add: py_setitem_def Let_def)
  then show ?thesis
    using assms(1) by (simp add: add_document_def Let_def split_def)
qed

lemma add_document_raise:
  assumes "allocate_id h = (Raised e, h1)"
  shows "add_document t c h = (Raised e, h1)"
  using assms by (simp add: add_document_def)

lemma allocate_id_cases:
  "allocate_id h =
     (if deleted_ids h \<noteq> [] then (Returned (hd (deleted_ids h)), h\<lparr>deleted_ids := tl (deleted_ids h)\<rparr>)
      else if 999 < next_id h then (Raised OverflowError, h\<lparr>next_id := next_id h + 1\<rparr>)
      else (Returned (group_prefix h * 1000 + next_id h), h\<lparr>next_id := next_id h + 1\<rparr>))"
  by (simp add: allocate_id_def Let_def)

lemma add_document_pool_empty:
  assumes "deleted_ids h = []"
  shows "deleted_ids (snd (add_document t c h)) = []"
    and "next_id (snd (add_document t c h)) = next_id h + 1"
  using assms
  by (simp_all add: add_document_def allocate_id_cases Let_def split_def split: option.splits)

lemma add_documents_pool_empty:
  "deleted_ids h = [] \<Longrightarrow>
     deleted_ids (add_documents n t c h) = [] \<and> next_id (add_documents n t c h) = next_id h + int n"
proof (induction n arbitrary: h)
  case 0
  then show ?case by simp
next
  case (Suc n)
  let ?h = "snd (add_document t c h)"
  have "deleted_ids ?h = []" and "next_id ?h = next_id h + 1"
    using Suc.prems by (simp_all add: add_document_pool_empty)
  then show ?case using Suc.IH[of ?h] by simp
qed

lemma reachable_add_documents: "reachable h \<Longrightarrow> reachable (add_documents n t c h)"
  by (induction n arbitrary: h) (simp_all add: reach_add)

lemma slot_Some_range: "slot h d = Some doc \<Longrightarrow> 1 \<le> d \<and> d \<le> int (length (documents h))"
  by (auto simp: slot_def split: if_splits)

lemma slot_padded:
  assumes "1 \<le> i"
  shows "slot (h\<lparr>documents := (documents h @ replicate (nat (i - int (length (documents h)))) None)
                                 [nat (i - 1) := Some doc]\<rparr>) d
       = (if d = i then Some doc else slot h d)"
proof (cases "d = i")
  case True
  then show ?thesis using assms by (auto simp: slot_def)
next
  case False
  have ne: "nat (d - 1) \<noteq> nat (i - 1)" if "1 \<le> d" using that assms False by simp
  show ?thesis
  proof (cases "1 \<le> d \<and> d \<le> int (length (documents h))")
    case True
    then have "nat (d - 1) < length (documents h)" by auto
    then show ?thesis using True False ne by (auto simp: slot_def nth_append)
  next
    case out: False
    show ?thesis
    proof (cases "1 \<le> d")
      case True
      then have big: "int (length (documents h)) < d" using out by simp
      then have "\<not> nat (d - 1) < length (documents h)" by auto
      then show ?thesis using True False big ne[OF True]
        by (auto simp: slot_def nth_append)
    next
      case False
      then show ?thesis using assms by (auto simp: slot_def)
    qed
  qed
qed

lemma slot_list_update:
  assumes "slot h d0 = Some doc"
  shows "slot (h\<lparr>documents := (documents h)[nat (d0 - 1) := v]\<rparr>) d
       = (if d = d0 then v else slot h d)"
proof -
  have r: "1 \<le> d0" "d0 \<le> int (length (documents h))" using slot_Some_range[OF assms] by simp_all
  then have "nat (d0 - 1) < length (documents h)" by auto
  moreover have "nat (d - 1) \<noteq> nat (d0 - 1)" if "1 \<le> d" "d \<noteq> d0" using that r by simp
  ultimately show ?thesis using r by (auto simp: slot_def)
qed

lemma delete_document_unfold:
  assumes "slot h d = Some doc" "\<not> deleted doc"
  shows "delete_document d h =
     (True,
      h\<lparr>documents := (documents h)[nat (d - 1) := Some (doc\<lparr>deleted := True\<rparr>)],
        title_index := fst (remove_words d (title_index h, doc_title_words h)),
        content_index := fst (remove_words d (content_index h, doc_content_words h)),
        doc_title_words := AList.delete d (snd (remove_words d (title_index h, doc_title_words h))),
        doc_content_words := AList.delete d (snd (remove_words d (content_index h, doc_content_words h))),
        deleted_ids := set_add d (deleted_ids h)\<rparr>)"
  using assms by (simp add: delete_document_def Let_def split_def)

lemma delete_document_fail:
  assumes "slot h d = None \<or> (\<exists>doc. slot h d = Some doc \<and> deleted doc)"
  shows "delete_document d h = (False, h)"
  using assms by (auto simp: delete_document_def)

lemma update_document_fail:
  assumes "slot h d = None \<or> (\<exists>doc. slot h d = Some doc \<and> deleted doc)"
  shows "update_document d t c h = (False, h)"
  using assms by (auto simp: update_document_def)

lemma add_document_alloc_fields:
  "next_id (snd (add_document t c h)) = next_id (snd (allocate_id h))"
  "group_prefix (snd (add_document t c h)) = group_prefix h"
  "deleted_ids (snd (add_document t c h)) = deleted_ids (snd (allocate_id h))"
  by (simp_all add: add_document_def allocate_id_cases Let_def split_def split: option.splits)

lemma update_document_alloc_fields:
  "next_id (snd (update_document d t c h)) = next_id h"
  "group_prefix (snd (update_document d t c h)) = group_prefix h"
  "deleted_ids (snd (update_document d t c h)) = deleted_ids h"
  by (simp_all add: update_document_def Let_def split_def split: option.splits)

lemma alloc_ok_reachable: "reachable h \<Longrightarrow> alloc_ok h"
proof (induction rule: reachable.induct)
  case (reach_init gid hash_value)
  show ?case by (simp add: alloc_ok_def init_hub_def)
next
  case (reach_add h t c)
  have "\<forall>d\<in>set (tl (deleted_ids h)). 1 \<le> d"
    using reach_add.IH by (cases "deleted_ids h") (auto simp: alloc_ok_def)
  then show ?case using reach_add.IH
    by (auto simp: alloc_ok_def add_document_alloc_fields allocate_id_cases)
next
  case (reach_update h doc_id t' c')
  then show ?case by (simp add: alloc_ok_def update_document_alloc_fields)
next
  case (reach_delete h doc_id)
  show ?case
  proof (cases "\<exists>doc. slot h doc_id = Some doc \<and> \<not> deleted doc")
    case True
    then obtain doc where d: "slot h doc_id = Some doc" "\<not> deleted doc" by blast
    have "1 \<le> doc_id" using slot_Some_range[OF d(1)] by simp
    then show ?thesis using reach_delete.IH
      by (auto simp: alloc_ok_def delete_document_unfold[OF d])
  next
    case False
    then have "slot h doc_id = None \<or> (\<exists>doc. slot h doc_id = Some doc \<and> deleted doc)"
      by (cases "slot h doc_id") auto
    then show ?thesis using reach_delete.IH by (simp add: delete_document_fail)
  qed
qed

lemma slot_documents: "documents h' = documents h \<Longrightarrow> slot h' d = slot h d"
  by (simp add: slot_def)

lemma allocate_id_documents: "documents (snd (allocate_id h)) = documents h"
  by (simp add: allocate_id_cases)

lemma add_document_slot:
  assumes "allocate_id h = (Returned i, h1)" "1 \<le> i"
  shows "slot (snd (add_document t c h)) d
       = (if d = i then Some \<lparr>title = t, content = c, info_id = i, deleted = False\<rparr> else slot h d)"
proof -
  let ?doc = "\<lparr>title = t, content = c, info_id = i, deleted = False\<rparr>"
  let ?docs = "(documents h1 @ replicate (nat (i - int (length (documents h1)))) None)
                 [nat (i - 1) := Some ?doc]"
  have "documents (snd (add_document t c h)) = documents (h1\<lparr>documents := ?docs\<rparr>)"
    by (simp add: add_document_unfold[OF assms])
  then have "slot (snd (add_document t c h)) d = slot (h1\<lparr>documents := ?docs\<rparr>) d"
    by (rule slot_documents)
  also have "\<dots> = (if d = i then Some ?doc else slot h1 d)"
    by (rule slot_padded[OF assms(2)])
  also have "slot h1 d = slot h d"
    using allocate_id_documents[of h] assms(1) by (intro slot_documents) simp
  finally show ?thesis .
qed

lemma allocate_id_returns:
  assumes "alloc_ok h" "deleted_ids h \<noteq> [] \<or> next_id h \<le> 999"
  shows "\<exists>i h1. allocate_id h = (Returned i, h1) \<and> 1 \<le> i"
proof (cases "deleted_ids h = []")
  case True
  then have "next_id h \<le> 999" using assms(2) by simp
  moreover have "1 \<le> group_prefix h * 1000 + next_id h"
    using assms(1) by (simp add: alloc_ok_def add_increasing)
  ultimately show ?thesis using True by (simp add: allocate_id_cases)
next
  case False
  then have "hd (deleted_ids h) \<in> set (deleted_ids h)" by simp
  then have "1 \<le> hd (deleted_ids h)" using assms(1) by (simp add: alloc_ok_def)
  then show ?thesis using False by (simp add: allocate_id_cases)
qed

text \<open>
  C5, as the code has it. \<open>add_document\<close> takes the id from the reuse pool when the pool is
  not empty, and otherwise takes the next sequence number under the prefix of the group.
  When that sequence number exceeds 999 the call raises \<open>OverflowError\<close>; the documents,
  both indexes, the word sets and the pool are as before, and \<open>next_id\<close> has advanced by
  one: \<open>_allocate_id\<close> increments it before the test.
\<close>

theorem add_document_allocation:
  assumes "reachable h"
  shows "(deleted_ids h \<noteq> [] \<longrightarrow>
            fst (add_document t c h) = Returned (hd (deleted_ids h))
          \<and> deleted_ids (snd (add_document t c h)) = tl (deleted_ids h)
          \<and> next_id (snd (add_document t c h)) = next_id h)
       \<and> (deleted_ids h = [] \<and> next_id h \<le> 999 \<longrightarrow>
            fst (add_document t c h) = Returned (group_prefix h * 1000 + next_id h)
          \<and> deleted_ids (snd (add_document t c h)) = []
          \<and> next_id (snd (add_document t c h)) = next_id h + 1)
       \<and> (deleted_ids h = [] \<and> 999 < next_id h \<longrightarrow>
            add_document t c h = (Raised OverflowError, h\<lparr>next_id := next_id h + 1\<rparr>))"
proof (intro conjI impI)
  assume a: "deleted_ids h = [] \<and> 999 < next_id h"
  then have "allocate_id h = (Raised OverflowError, h\<lparr>next_id := next_id h + 1\<rparr>)"
    by (simp add: allocate_id_cases)
  then show "add_document t c h = (Raised OverflowError, h\<lparr>next_id := next_id h + 1\<rparr>)"
    by (rule add_document_raise)
next
  assume a: "deleted_ids h \<noteq> []"
  have ok: "alloc_ok h" using assms by (rule alloc_ok_reachable)
  from a have "hd (deleted_ids h) \<in> set (deleted_ids h)" by simp
  then have i: "1 \<le> hd (deleted_ids h)" using ok by (simp add: alloc_ok_def)
  have al: "allocate_id h = (Returned (hd (deleted_ids h)), h\<lparr>deleted_ids := tl (deleted_ids h)\<rparr>)"
    using a by (simp add: allocate_id_cases)
  show "fst (add_document t c h) = Returned (hd (deleted_ids h))"
    by (simp add: add_document_unfold[OF al i])
  show "deleted_ids (snd (add_document t c h)) = tl (deleted_ids h)"
    by (simp add: add_document_unfold[OF al i])
  show "next_id (snd (add_document t c h)) = next_id h"
    by (simp add: add_document_unfold[OF al i])
next
  assume a: "deleted_ids h = [] \<and> next_id h \<le> 999"
  have ok: "alloc_ok h" using assms by (rule alloc_ok_reachable)
  have i: "1 \<le> group_prefix h * 1000 + next_id h"
    using ok by (simp add: alloc_ok_def add_increasing)
  have al: "allocate_id h
      = (Returned (group_prefix h * 1000 + next_id h), h\<lparr>next_id := next_id h + 1\<rparr>)"
    using a by (simp add: allocate_id_cases)
  show "fst (add_document t c h) = Returned (group_prefix h * 1000 + next_id h)"
    by (simp add: add_document_unfold[OF al i])
  show "deleted_ids (snd (add_document t c h)) = []"
    using a by (simp add: add_document_unfold[OF al i])
  show "next_id (snd (add_document t c h)) = next_id h + 1"
    by (simp add: add_document_unfold[OF al i])
qed

theorem add_document_allocation_witness:
  "fst (add_document ''t'' ''c'' (init_hub ''g'' 0)) = Returned 1
   \<and> fst (add_document ''t'' ''c''
            (snd (delete_document 1 (snd (add_document ''a'' ''b'' (init_hub ''g'' 0))))))
       = Returned 1
   \<and> add_document ''t'' ''c'' (add_documents 999 '''' '''' (init_hub ''g'' 0))
       = (Raised OverflowError, (add_documents 999 '''' '''' (init_hub ''g'' 0))\<lparr>next_id := 1001\<rparr>)"
proof -
  let ?h0 = "init_hub ''g'' 0"
  let ?h1 = "snd (delete_document 1 (snd (add_document ''a'' ''b'' ?h0)))"
  let ?h2 = "add_documents 999 '''' '''' ?h0"
  have r0: "reachable ?h0" by (rule reach_init)
  have r1: "reachable ?h1" by (intro reach_delete reach_add reach_init)
  have r2: "reachable ?h2" by (intro reachable_add_documents reach_init)
  have p0: "deleted_ids ?h0 = [] \<and> next_id ?h0 \<le> 999 \<and> group_prefix ?h0 * 1000 + next_id ?h0 = 1"
    by (simp add: init_hub_def)
  have p1: "deleted_ids ?h1 \<noteq> [] \<and> hd (deleted_ids ?h1) = 1" by code_simp
  have "deleted_ids ?h0 = []" by (simp add: init_hub_def)
  from add_documents_pool_empty[OF this, of 999 "''''" "''''"]
  have p2: "deleted_ids ?h2 = [] \<and> 999 < next_id ?h2 \<and> next_id ?h2 + 1 = 1001"
    by (simp add: init_hub_def)
  show ?thesis
    using add_document_allocation[OF r0, of "''t''" "''c''"]
      add_document_allocation[OF r1, of "''t''" "''c''"]
      add_document_allocation[OF r2, of "''t''" "''c''"] p0 p1 p2
    by simp
qed

text \<open>
  The claim as stated asks for the allocation state to be as before the failed call. After
  999 documents have been added to a fresh hub, \<open>next_id\<close> is 1000; the next
  \<open>add_document\<close> raises \<open>OverflowError\<close> and leaves \<open>next_id\<close> at 1001.
\<close>

theorem add_document_overflow_counterexample:
  "reachable (add_documents 999 '''' '''' (init_hub ''g'' 0))
   \<and> next_id (add_documents 999 '''' '''' (init_hub ''g'' 0)) = 1000
   \<and> fst (add_document ''t'' ''c'' (add_documents 999 '''' '''' (init_hub ''g'' 0)))
       = Raised OverflowError
   \<and> next_id (snd (add_document ''t'' ''c'' (add_documents 999 '''' '''' (init_hub ''g'' 0))))
       = 1001"
proof -
  let ?h0 = "init_hub ''g'' 0"
  let ?h2 = "add_documents 999 '''' '''' ?h0"
  have r2: "reachable ?h2" by (intro reachable_add_documents reach_init)
  have "deleted_ids ?h0 = []" by (simp add: init_hub_def)
  from add_documents_pool_empty[OF this, of 999 "''''" "''''"]
  have p2: "deleted_ids ?h2 = []" "next_id ?h2 = 1000"
    by (simp_all add: init_hub_def)
  have "allocate_id ?h2 = (Raised OverflowError, ?h2\<lparr>next_id := next_id ?h2 + 1\<rparr>)"
    using p2 by (simp add: allocate_id_cases)
  then have "add_document ''t'' ''c'' ?h2 = (Raised OverflowError, ?h2\<lparr>next_id := next_id ?h2 + 1\<rparr>)"
    by (rule add_document_raise)
  then show ?thesis using r2 p2 by simp
qed

text \<open>
  C7. In every reachable state with allocation capacity left (an id in the pool, or a
  sequence number of at most 999), \<open>add_document(t, c)\<close> returns an id, and
  \<open>get_document\<close> on that id right after returns the document with title \<open>t\<close>, content
  \<open>c\<close> and \<open>deleted = False\<close>.
\<close>

theorem add_then_get_document:
  assumes "reachable h" "deleted_ids h \<noteq> [] \<or> next_id h \<le> 999"
  shows "\<exists>i. fst (add_document t c h) = Returned i
           \<and> get_document i (snd (add_document t c h))
               = Some \<lparr>title = t, content = c, info_id = i, deleted = False\<rparr>"
proof -
  have ok: "alloc_ok h" using assms(1) by (rule alloc_ok_reachable)
  obtain i h1 where al: "allocate_id h = (Returned i, h1)" and i: "1 \<le> i"
    using allocate_id_returns[OF ok assms(2)] by blast
  have "fst (add_document t c h) = Returned i"
    by (simp add: add_document_unfold[OF al i])
  moreover have "get_document i (snd (add_document t c h))
      = Some \<lparr>title = t, content = c, info_id = i, deleted = False\<rparr>"
    by (simp add: get_document_def add_document_slot[OF al i])
  ultimately show ?thesis by blast
qed

theorem add_then_get_document_witness:
  "fst (add_document ''Title'' ''some content'' (init_hub ''g'' 0)) = Returned 1
   \<and> get_document 1 (snd (add_document ''Title'' ''some content'' (init_hub ''g'' 0)))
       = Some \<lparr>title = ''Title'', content = ''some content'', info_id = 1, deleted = False\<rparr>"
proof -
  let ?h0 = "init_hub ''g'' 0"
  have r0: "reachable ?h0" by (rule reach_init)
  have c0: "deleted_ids ?h0 \<noteq> [] \<or> next_id ?h0 \<le> 999" by (simp add: init_hub_def)
  have f: "fst (add_document ''Title'' ''some content'' ?h0) = Returned 1" by code_simp
  from add_then_get_document[OF r0 c0, of "''Title''" "''some content''"] f
  show ?thesis by auto
qed

subsection \<open>The invariant of the hub\<close>

lemma map_of_remove_word:
  "map_of (remove_word d w idx) w' =
     (if w' = w then
        (let e = fold del_at (rev [bisect_left (getitem [] w idx) (d, 0)..<
                                    bisect_right (getitem [] w idx) (d, \<infinity>)]) (getitem [] w idx)
         in if e = [] then None else Some e)
      else map_of idx w')"
  by (simp add: remove_word_def Let_def update_conv' delete_conv' map_of_vivify
           split: option.splits)

lemma nonempty_remove_word:
  assumes "\<forall>w. map_of idx w \<noteq> Some []"
  shows "map_of (remove_word d w idx) w' \<noteq> Some []"
  using assms by (simp add: map_of_remove_word Let_def)

lemma nonempty_fold_remove_word:
  assumes "\<forall>w. map_of idx w \<noteq> Some []"
  shows "map_of (fold (remove_word d) wl idx) w' \<noteq> Some []"
  using assms
proof (induction wl arbitrary: idx)
  case Nil
  then show ?case by simp
next
  case (Cons w wl)
  have "\<forall>w'. map_of (remove_word d w idx) w' \<noteq> Some []"
    using Cons.prems by (simp add: nonempty_remove_word)
  then show ?case using Cons.IH[of "remove_word d w idx"] by simp
qed

lemma nonempty_remove_words:
  assumes "\<forall>w. map_of idx w \<noteq> Some []"
  shows "map_of (fst (remove_words d (idx, ws))) w' \<noteq> Some []"
  using nonempty_fold_remove_word[OF assms] by (simp add: remove_words_def Let_def)

lemma map_of_index_word:
  "map_of (fst (index_word d (p, w) s)) w'
     = (if w' = w then Some (insort (getitem [] w (fst s)) (d, p)) else map_of (fst s) w')"
  by (simp add: index_word_def Let_def update_conv' map_of_vivify split: option.splits)

lemma insort_nonempty: "insort a x \<noteq> []"
  using length_insort[of a x] by (metis length_0_conv nat.distinct(1))

lemma nonempty_fold_index_word:
  assumes "\<forall>w. map_of (fst s) w \<noteq> Some []"
  shows "map_of (fst (fold (index_word d) pws s)) w' \<noteq> Some []"
  using assms
proof (induction pws arbitrary: s)
  case Nil
  then show ?case by simp
next
  case (Cons pw pws)
  obtain p w where pw: "pw = (p, w)" by (cases pw)
  have "\<forall>w'. map_of (fst (index_word d (p, w) s)) w' \<noteq> Some []"
    using Cons.prems by (simp add: map_of_index_word insort_nonempty)
  then show ?case unfolding pw using Cons.IH[of "index_word d (p, w) s"] by simp
qed

lemma nonempty_index_words:
  assumes "\<forall>w. map_of (fst s) w \<noteq> Some []"
  shows "map_of (fst (index_words d toks s)) w' \<noteq> Some []"
  unfolding index_words_def using assms by (rule nonempty_fold_index_word)

lemma postings_ok_index_words:
  assumes ok: "postings_ok T idx ws" and fresh: "T d = None"
  shows "postings_ok (T(d \<mapsto> toks)) (fst (index_words d toks (idx, ws)))
           (snd (index_words d toks (idx, ws)))"
proof -
  let ?s = "index_words d toks (idx, ws)"
  have sd: "\<forall>w. sorted (getitem [] w idx) \<and> distinct (getitem [] w idx)"
    and E: "\<forall>w d p. (d, p) \<in> set (getitem [] w idx) \<longleftrightarrow>
        (\<exists>toks. T d = Some toks \<and> p < length toks \<and> toks ! p = w)"
    and F: "\<forall>d toks. T d = Some toks \<longrightarrow> set toks \<subseteq> set (getitem [] d ws)"
    and N: "\<forall>w. map_of idx w \<noteq> Some []"
    using ok by (simp_all add: postings_ok_def)
  have none: "\<forall>w p. (d, p) \<notin> set (getitem [] w idx)" using E fresh by simp
  have s1: "sorted (getitem [] w (fst ?s))" for w
    using sd by (intro index_words_sorted) simp
  have d1: "distinct (getitem [] w (fst ?s))" for w
    using sd none by (intro index_words_distinct) simp_all
  have E1: "(d', p) \<in> set (getitem [] w (fst ?s)) \<longleftrightarrow>
        (\<exists>toks'. (T(d \<mapsto> toks)) d' = Some toks' \<and> p < length toks' \<and> toks' ! p = w)" for w d' p
  proof (cases "d' = d")
    case True
    then show ?thesis using none by (simp add: index_words_set)
  next
    case False
    then show ?thesis using E by (simp add: index_words_set)
  qed
  have F1: "set toks' \<subseteq> set (getitem [] d' (snd ?s))" if "(T(d \<mapsto> toks)) d' = Some toks'" for d' toks'
  proof (cases "d' = d")
    case True
    then show ?thesis using that by (auto simp: index_words_words)
  next
    case False
    then have "T d' = Some toks'" using that by simp
    then have "set toks' \<subseteq> set (getitem [] d' ws)" using F by blast
    then show ?thesis by (auto simp: index_words_words)
  qed
  have N1: "map_of (fst ?s) w \<noteq> Some []" for w
    using N by (intro nonempty_index_words) simp
  show ?thesis unfolding postings_ok_def using s1 d1 E1 F1 N1 by blast
qed

lemma remove_words_filter:
  assumes ok: "postings_ok T idx ws"
  shows "getitem [] w (fst (remove_words d (idx, ws))) = filter (\<lambda>e. fst e \<noteq> d) (getitem [] w idx)"
proof -
  have sd: "\<forall>w. sorted (getitem [] w idx)"
    and E: "\<forall>w d p. (d, p) \<in> set (getitem [] w idx) \<longleftrightarrow>
        (\<exists>toks. T d = Some toks \<and> p < length toks \<and> toks ! p = w)"
    and F: "\<forall>d toks. T d = Some toks \<longrightarrow> set toks \<subseteq> set (getitem [] d ws)"
    using ok by (simp_all add: postings_ok_def)
  show ?thesis
  proof (cases "w \<in> set (getitem [] d ws)")
    case True
    then show ?thesis by (simp add: remove_words_eq(1)[OF sd])
  next
    case False
    have "\<forall>e\<in>set (getitem [] w idx). fst e \<noteq> d"
    proof
      fix e assume e: "e \<in> set (getitem [] w idx)"
      show "fst e \<noteq> d"
      proof
        assume "fst e = d"
        then have "(d, snd e) \<in> set (getitem [] w idx)" using e by (metis prod.collapse)
        then obtain toks where t: "T d = Some toks" "snd e < length toks" "toks ! snd e = w"
          using E by blast
        then have "w \<in> set toks" by (metis nth_mem)
        then show False using F t(1) False by blast
      qed
    qed
    then have "filter (\<lambda>e. fst e \<noteq> d) (getitem [] w idx) = getitem [] w idx"
      by (simp add: filter_id_conv)
    then show ?thesis using False by (simp add: remove_words_eq(1)[OF sd])
  qed
qed

lemma postings_ok_remove_words:
  assumes ok: "postings_ok T idx ws"
    and ws': "\<forall>d'. d' \<noteq> d \<longrightarrow> getitem [] d' ws' = getitem [] d' ws"
  shows "postings_ok (T(d := None)) (fst (remove_words d (idx, ws))) ws'"
proof -
  let ?idx = "fst (remove_words d (idx, ws))"
  have sd: "\<forall>w. sorted (getitem [] w idx) \<and> distinct (getitem [] w idx)"
    and E: "\<forall>w d p. (d, p) \<in> set (getitem [] w idx) \<longleftrightarrow>
        (\<exists>toks. T d = Some toks \<and> p < length toks \<and> toks ! p = w)"
    and F: "\<forall>d toks. T d = Some toks \<longrightarrow> set toks \<subseteq> set (getitem [] d ws)"
    and N: "\<forall>w. map_of idx w \<noteq> Some []"
    using ok by (simp_all add: postings_ok_def)
  note flt = remove_words_filter[OF ok, of _ d]
  have s1: "sorted (getitem [] w ?idx)" for w
    using sd by (simp add: flt sorted_wrt_filter)
  have d1: "distinct (getitem [] w ?idx)" for w
    using sd by (simp add: flt)
  have E1: "(d', p) \<in> set (getitem [] w ?idx) \<longleftrightarrow>
        (\<exists>toks'. (T(d := None)) d' = Some toks' \<and> p < length toks' \<and> toks' ! p = w)" for w d' p
    using E by (cases "d' = d") (simp_all add: flt)
  have F1: "set toks' \<subseteq> set (getitem [] d' ws')" if "(T(d := None)) d' = Some toks'" for d' toks'
  proof -
    have ne: "d' \<noteq> d" using that by (auto split: if_splits)
    then have "T d' = Some toks'" using that by simp
    then have "set toks' \<subseteq> set (getitem [] d' ws)" using F by blast
    then show ?thesis using ws' ne by simp
  qed
  have N1: "map_of ?idx w \<noteq> Some []" for w
    using N by (rule nonempty_remove_words)
  show ?thesis unfolding postings_ok_def using s1 d1 E1 F1 N1 by blast
qed

text \<open>Two agreeing descriptions of the same tokens give the same posting lists.\<close>

lemma postings_ok_unique:
  assumes "postings_ok T idx ws" "postings_ok T idx' ws'"
  shows "map_of idx' = map_of idx"
proof
  fix w
  have set_eq: "set (getitem [] w idx') = set (getitem [] w idx)"
    using assms by (auto simp: postings_ok_def)
  have "sorted (getitem [] w idx')" "distinct (getitem [] w idx')"
    "sorted (getitem [] w idx)" "distinct (getitem [] w idx)"
    using assms by (simp_all add: postings_ok_def)
  then have eq: "getitem [] w idx' = getitem [] w idx"
    using set_eq by (intro sorted_distinct_set_unique)
  have n: "map_of idx w \<noteq> Some []" "map_of idx' w \<noteq> Some []"
    using assms by (simp_all add: postings_ok_def)
  show "map_of idx' w = map_of idx w"
    using eq n by (auto simp: getitem_def split: option.splits)
qed

lemma doc_tokens_slot:
  assumes "\<forall>d. slot h' d = slot h d"
  shows "doc_tokens f h' = doc_tokens f h"
  using assms by (intro ext) (simp add: doc_tokens_def get_document_def)

lemma doc_tokens_upd:
  assumes "\<forall>d. slot h' d = (if d = i then Some doc else slot h d)"
  shows "doc_tokens f h' = (if deleted doc then (doc_tokens f h)(i := None)
                            else (doc_tokens f h)(i \<mapsto> tokenize (f doc)))"
  using assms by (intro ext) (simp add: doc_tokens_def get_document_def)

lemma hub_inv_next_id:
  assumes "hub_inv h"
  shows "hub_inv (h\<lparr>next_id := next_id h + 1\<rparr>)"
proof -
  let ?h = "h\<lparr>next_id := next_id h + 1\<rparr>"
  have sl: "\<forall>d. slot ?h d = slot h d" by (simp add: slot_def)
  have dt: "doc_tokens f ?h = doc_tokens f h" for f by (rule doc_tokens_slot[OF sl])
  have a: "alloc_ok ?h" using assms by (simp add: hub_inv_def alloc_ok_def)
  have b: "distinct (deleted_ids ?h)" using assms by (simp add: hub_inv_def)
  have c: "\<forall>d\<in>set (deleted_ids ?h). \<exists>doc. slot ?h d = Some doc \<and> deleted doc"
    using assms sl by (simp add: hub_inv_def)
  have d: "\<forall>d doc. slot ?h d = Some doc \<longrightarrow>
        info_id doc = d \<and> d < group_prefix ?h * 1000 + next_id ?h"
  proof (intro allI impI)
    fix d doc assume "slot ?h d = Some doc"
    then have "slot h d = Some doc" using sl by simp
    then have "info_id doc = d \<and> d < group_prefix h * 1000 + next_id h"
      using assms by (simp add: hub_inv_def)
    then show "info_id doc = d \<and> d < group_prefix ?h * 1000 + next_id ?h" by simp
  qed
  have e: "postings_ok (doc_tokens title ?h) (title_index ?h) (doc_title_words ?h)"
    using assms by (simp add: dt hub_inv_def)
  have f: "postings_ok (doc_tokens content ?h) (content_index ?h) (doc_content_words ?h)"
    using assms by (simp add: dt hub_inv_def)
  show ?thesis unfolding hub_inv_def using a b c d e f by (intro conjI)
qed

lemma update_document_unfold:
  assumes "slot h d = Some doc" "\<not> deleted doc"
    and "doc2 = (case c of None \<Rightarrow> (case t of None \<Rightarrow> doc | Some t' \<Rightarrow> doc\<lparr>title := t'\<rparr>)
                 | Some c' \<Rightarrow> (case t of None \<Rightarrow> doc | Some t' \<Rightarrow> doc\<lparr>title := t'\<rparr>)\<lparr>content := c'\<rparr>)"
    and "tr = remove_words d (title_index h, doc_title_words h)"
    and "cr = remove_words d (content_index h, doc_content_words h)"
  shows "update_document d t c h =
     (True,
      h\<lparr>documents := (documents h)[nat (d - 1) := Some doc2],
        title_index := fst (index_words d (tokenize (title doc2)) (fst tr, AList.update d [] (snd tr))),
        content_index := fst (index_words d (tokenize (content doc2)) (fst cr, AList.update d [] (snd cr))),
        doc_title_words := snd (index_words d (tokenize (title doc2)) (fst tr, AList.update d [] (snd tr))),
        doc_content_words := snd (index_words d (tokenize (content doc2)) (fst cr, AList.update d [] (snd cr)))\<rparr>)"
  using assms(1,2) unfolding assms(3,4,5)
  by (simp add: update_document_def Let_def split_def)

lemma hub_inv_add_document:
  assumes inv: "hub_inv h"
  shows "hub_inv (snd (add_document t c h))"
proof (cases "deleted_ids h = [] \<and> 999 < next_id h")
  case True
  then have "allocate_id h = (Raised OverflowError, h\<lparr>next_id := next_id h + 1\<rparr>)"
    by (simp add: allocate_id_cases)
  then have "add_document t c h = (Raised OverflowError, h\<lparr>next_id := next_id h + 1\<rparr>)"
    by (rule add_document_raise)
  then show ?thesis using hub_inv_next_id[OF inv] by simp
next
  case False
  then have cap: "deleted_ids h \<noteq> [] \<or> next_id h \<le> 999" by auto
  have ok: "alloc_ok h" using inv by (simp add: hub_inv_def)
  obtain i h1 where al: "allocate_id h = (Returned i, h1)" and i: "1 \<le> i"
    using allocate_id_returns[OF ok cap] by blast
  let ?h = "snd (add_document t c h)"
  let ?doc = "\<lparr>title = t, content = c, info_id = i, deleted = False\<rparr>"
  have h1: "h1 = snd (allocate_id h)" using al by simp
  have sl: "\<forall>d. slot ?h d = (if d = i then Some ?doc else slot h d)"
    by (simp add: add_document_slot[OF al i])
  have pool_d: "distinct (deleted_ids h)"
    and pool_t: "\<forall>d\<in>set (deleted_ids h). \<exists>doc. slot h d = Some doc \<and> deleted doc"
    and bound: "\<forall>d doc. slot h d = Some doc \<longrightarrow>
        info_id doc = d \<and> d < group_prefix h * 1000 + next_id h"
    and pt: "postings_ok (doc_tokens title h) (title_index h) (doc_title_words h)"
    and pc: "postings_ok (doc_tokens content h) (content_index h) (doc_content_words h)"
    using inv by (simp_all add: hub_inv_def)
  have fields: "next_id ?h = next_id h1" "deleted_ids ?h = deleted_ids h1"
    "group_prefix ?h = group_prefix h"
    "title_index ?h = fst (index_words i (tokenize t) (title_index h, doc_title_words h))"
    "doc_title_words ?h = snd (index_words i (tokenize t) (title_index h, doc_title_words h))"
    "content_index ?h = fst (index_words i (tokenize c) (content_index h, doc_content_words h))"
    "doc_content_words ?h = snd (index_words i (tokenize c) (content_index h, doc_content_words h))"
    unfolding add_document_unfold[OF al i] h1 by (simp_all add: allocate_id_cases)
  have all: "get_document i h = None \<and> distinct (deleted_ids h1) \<and> i \<notin> set (deleted_ids h1)
      \<and> set (deleted_ids h1) \<subseteq> set (deleted_ids h)
      \<and> i < group_prefix h * 1000 + next_id h1 \<and> next_id h \<le> next_id h1"
  proof (cases "deleted_ids h = []")
    case True
    then have eq: "i = group_prefix h * 1000 + next_id h" "h1 = h\<lparr>next_id := next_id h + 1\<rparr>"
      using al cap by (simp_all add: allocate_id_cases)
    have "slot h i = None"
    proof (cases "slot h i")
      case (Some doc)
      then show ?thesis using bound eq(1) by fastforce
    qed simp
    then have "get_document i h = None" by (simp add: get_document_def)
    then show ?thesis using True eq by simp
  next
    case False
    then have eq: "i = hd (deleted_ids h)" "h1 = h\<lparr>deleted_ids := tl (deleted_ids h)\<rparr>"
      using al by (simp_all add: allocate_id_cases)
    obtain rest where pool: "deleted_ids h = i # rest"
      using False eq(1) by (cases "deleted_ids h") simp_all
    obtain doc where doc: "slot h i = Some doc" "deleted doc"
      using pool_t pool by auto
    have 1: "get_document i h = None" using doc by (simp add: get_document_def)
    have 2: "distinct (deleted_ids h1) \<and> i \<notin> set (deleted_ids h1)
        \<and> set (deleted_ids h1) \<subseteq> set (deleted_ids h)"
      using pool_d pool eq(2) by auto
    have 3: "i < group_prefix h * 1000 + next_id h1" using bound doc(1) eq(2) by simp
    have 4: "next_id h \<le> next_id h1" using eq(2) by simp
    show ?thesis using 1 2 3 4 by simp
  qed
  then have notlive: "get_document i h = None"
    and pool': "distinct (deleted_ids h1)" "i \<notin> set (deleted_ids h1)"
         "set (deleted_ids h1) \<subseteq> set (deleted_ids h)"
    and bound_i: "i < group_prefix h * 1000 + next_id h1"
    and nid: "next_id h \<le> next_id h1"
    by simp_all
  have fresh: "doc_tokens f h i = None" for f
    using notlive by (simp add: doc_tokens_def)
  have dt: "doc_tokens f ?h = (doc_tokens f h)(i \<mapsto> tokenize (f ?doc))" for f
    using doc_tokens_upd[OF sl, of f] by simp
  have a: "alloc_ok ?h"
    using ok pool'(3) nid by (auto simp: alloc_ok_def fields)
  have b: "distinct (deleted_ids ?h)" using pool'(1) by (simp add: fields)
  have c: "\<forall>d\<in>set (deleted_ids ?h). \<exists>doc. slot ?h d = Some doc \<and> deleted doc"
  proof
    fix d assume "d \<in> set (deleted_ids ?h)"
    then have "d \<in> set (deleted_ids h)" "d \<noteq> i" using pool'(2,3) by (auto simp: fields)
    then show "\<exists>doc. slot ?h d = Some doc \<and> deleted doc" using pool_t sl by simp
  qed
  have d: "\<forall>d doc. slot ?h d = Some doc \<longrightarrow>
        info_id doc = d \<and> d < group_prefix ?h * 1000 + next_id ?h"
  proof (intro allI impI)
    fix d doc assume s: "slot ?h d = Some doc"
    show "info_id doc = d \<and> d < group_prefix ?h * 1000 + next_id ?h"
    proof (cases "d = i")
      case True
      then show ?thesis using s sl bound_i by (auto simp: fields)
    next
      case False
      then have "slot h d = Some doc" using s sl by simp
      then have "info_id doc = d \<and> d < group_prefix h * 1000 + next_id h" using bound by blast
      then show ?thesis using nid by (simp add: fields)
    qed
  qed
  have e: "postings_ok (doc_tokens title ?h) (title_index ?h) (doc_title_words ?h)"
    using postings_ok_index_words[OF pt fresh, of "tokenize t"] by (simp add: dt fields)
  have f: "postings_ok (doc_tokens content ?h) (content_index ?h) (doc_content_words ?h)"
    using postings_ok_index_words[OF pc fresh, of "tokenize c"] by (simp add: dt fields)
  show ?thesis unfolding hub_inv_def using a b c d e f by (intro conjI)
qed

lemma postings_ok_sorted: "postings_ok T idx ws \<Longrightarrow> \<forall>w. sorted (getitem [] w idx)"
  by (simp add: postings_ok_def)

lemma hub_inv_delete_document:
  assumes inv: "hub_inv h"
  shows "hub_inv (snd (delete_document d0 h))"
proof (cases "\<exists>doc. slot h d0 = Some doc \<and> \<not> deleted doc")
  case False
  then have "slot h d0 = None \<or> (\<exists>doc. slot h d0 = Some doc \<and> deleted doc)"
    by (cases "slot h d0") auto
  then show ?thesis using inv by (simp add: delete_document_fail)
next
  case True
  then obtain doc where doc: "slot h d0 = Some doc" "\<not> deleted doc" by blast
  let ?h = "snd (delete_document d0 h)"
  let ?doc = "doc\<lparr>deleted := True\<rparr>"
  let ?tr = "remove_words d0 (title_index h, doc_title_words h)"
  let ?cr = "remove_words d0 (content_index h, doc_content_words h)"
  have ok: "alloc_ok h" and pool_d: "distinct (deleted_ids h)"
    and pool_t: "\<forall>d\<in>set (deleted_ids h). \<exists>doc. slot h d = Some doc \<and> deleted doc"
    and bound: "\<forall>d doc. slot h d = Some doc \<longrightarrow>
        info_id doc = d \<and> d < group_prefix h * 1000 + next_id h"
    and pt: "postings_ok (doc_tokens title h) (title_index h) (doc_title_words h)"
    and pc: "postings_ok (doc_tokens content h) (content_index h) (doc_content_words h)"
    using inv by (simp_all add: hub_inv_def)
  have fields: "next_id ?h = next_id h" "deleted_ids ?h = set_add d0 (deleted_ids h)"
    "group_prefix ?h = group_prefix h"
    "title_index ?h = fst ?tr" "doc_title_words ?h = AList.delete d0 (snd ?tr)"
    "content_index ?h = fst ?cr" "doc_content_words ?h = AList.delete d0 (snd ?cr)"
    "documents ?h = (documents h)[nat (d0 - 1) := Some ?doc]"
    unfolding delete_document_unfold[OF doc] by simp_all
  have "slot ?h d = slot (h\<lparr>documents := (documents h)[nat (d0 - 1) := Some ?doc]\<rparr>) d" for d
    by (rule slot_documents) (simp add: fields)
  then have sl: "\<forall>d. slot ?h d = (if d = d0 then Some ?doc else slot h d)"
    by (simp add: slot_list_update[OF doc(1)])
  have dt: "doc_tokens f ?h = (doc_tokens f h)(d0 := None)" for f
    using doc_tokens_upd[OF sl, of f] by simp
  have d0: "1 \<le> d0" using slot_Some_range[OF doc(1)] by simp
  have a: "alloc_ok ?h" using ok d0 by (auto simp: alloc_ok_def fields)
  have b: "distinct (deleted_ids ?h)" using pool_d by (simp add: fields distinct_set_add)
  have c: "\<forall>d\<in>set (deleted_ids ?h). \<exists>doc. slot ?h d = Some doc \<and> deleted doc"
    using pool_t sl by (auto simp: fields)
  have d: "\<forall>d doc. slot ?h d = Some doc \<longrightarrow>
        info_id doc = d \<and> d < group_prefix ?h * 1000 + next_id ?h"
  proof (intro allI impI)
    fix d doc' assume s: "slot ?h d = Some doc'"
    show "info_id doc' = d \<and> d < group_prefix ?h * 1000 + next_id ?h"
    proof (cases "d = d0")
      case True
      then have "doc' = ?doc" using s sl by simp
      then show ?thesis using bound doc(1) True by (auto simp: fields)
    next
      case False
      then have "slot h d = Some doc'" using s sl by simp
      then show ?thesis using bound by (simp add: fields)
    qed
  qed
  have wt: "\<forall>d'. d' \<noteq> d0 \<longrightarrow>
      getitem [] d' (AList.delete d0 (snd ?tr)) = getitem [] d' (doc_title_words h)"
    by (simp add: getitem_delete remove_words_eq(2)[OF postings_ok_sorted[OF pt]])
  have wc: "\<forall>d'. d' \<noteq> d0 \<longrightarrow>
      getitem [] d' (AList.delete d0 (snd ?cr)) = getitem [] d' (doc_content_words h)"
    by (simp add: getitem_delete remove_words_eq(2)[OF postings_ok_sorted[OF pc]])
  have e: "postings_ok (doc_tokens title ?h) (title_index ?h) (doc_title_words ?h)"
    using postings_ok_remove_words[OF pt wt] by (simp add: dt fields)
  have f: "postings_ok (doc_tokens content ?h) (content_index ?h) (doc_content_words ?h)"
    using postings_ok_remove_words[OF pc wc] by (simp add: dt fields)
  show ?thesis unfolding hub_inv_def using a b c d e f by (intro conjI)
qed

lemma hub_inv_update_document:
  assumes inv: "hub_inv h"
  shows "hub_inv (snd (update_document d0 t c h))"
proof (cases "\<exists>doc. slot h d0 = Some doc \<and> \<not> deleted doc")
  case False
  then have "slot h d0 = None \<or> (\<exists>doc. slot h d0 = Some doc \<and> deleted doc)"
    by (cases "slot h d0") auto
  then show ?thesis using inv by (simp add: update_document_fail)
next
  case True
  then obtain doc where doc: "slot h d0 = Some doc" "\<not> deleted doc" by blast
  let ?h = "snd (update_document d0 t c h)"
  define doc2 where "doc2 = (case c of None \<Rightarrow> (case t of None \<Rightarrow> doc | Some t' \<Rightarrow> doc\<lparr>title := t'\<rparr>)
                 | Some c' \<Rightarrow> (case t of None \<Rightarrow> doc | Some t' \<Rightarrow> doc\<lparr>title := t'\<rparr>)\<lparr>content := c'\<rparr>)"
  define tr where "tr = remove_words d0 (title_index h, doc_title_words h)"
  define cr where "cr = remove_words d0 (content_index h, doc_content_words h)"
  let ?ti = "index_words d0 (tokenize (title doc2)) (fst tr, AList.update d0 [] (snd tr))"
  let ?ci = "index_words d0 (tokenize (content doc2)) (fst cr, AList.update d0 [] (snd cr))"
  have doc2: "\<not> deleted doc2" "info_id doc2 = info_id doc"
    using doc(2) by (simp_all add: doc2_def split: option.splits)
  have ok: "alloc_ok h" and pool_d: "distinct (deleted_ids h)"
    and pool_t: "\<forall>d\<in>set (deleted_ids h). \<exists>doc. slot h d = Some doc \<and> deleted doc"
    and bound: "\<forall>d doc. slot h d = Some doc \<longrightarrow>
        info_id doc = d \<and> d < group_prefix h * 1000 + next_id h"
    and pt: "postings_ok (doc_tokens title h) (title_index h) (doc_title_words h)"
    and pc: "postings_ok (doc_tokens content h) (content_index h) (doc_content_words h)"
    using inv by (simp_all add: hub_inv_def)
  have fields: "next_id ?h = next_id h" "deleted_ids ?h = deleted_ids h"
    "group_prefix ?h = group_prefix h"
    "title_index ?h = fst ?ti" "doc_title_words ?h = snd ?ti"
    "content_index ?h = fst ?ci" "doc_content_words ?h = snd ?ci"
    "documents ?h = (documents h)[nat (d0 - 1) := Some doc2]"
    unfolding update_document_unfold[OF doc doc2_def tr_def cr_def] by simp_all
  have "slot ?h d = slot (h\<lparr>documents := (documents h)[nat (d0 - 1) := Some doc2]\<rparr>) d" for d
    by (rule slot_documents) (simp add: fields)
  then have sl: "\<forall>d. slot ?h d = (if d = d0 then Some doc2 else slot h d)"
    by (simp add: slot_list_update[OF doc(1)])
  have dt: "doc_tokens f ?h = (doc_tokens f h)(d0 \<mapsto> tokenize (f doc2))" for f
    using doc_tokens_upd[OF sl, of f] doc2(1) by simp
  have a: "alloc_ok ?h" using ok by (simp add: alloc_ok_def fields)
  have b: "distinct (deleted_ids ?h)" using pool_d by (simp add: fields)
  have c: "\<forall>d\<in>set (deleted_ids ?h). \<exists>doc. slot ?h d = Some doc \<and> deleted doc"
  proof
    fix d assume "d \<in> set (deleted_ids ?h)"
    then obtain doc' where d': "slot h d = Some doc'" "deleted doc'"
      using pool_t by (auto simp: fields)
    then have "d \<noteq> d0" using doc by auto
    then show "\<exists>doc. slot ?h d = Some doc \<and> deleted doc" using d' sl by simp
  qed
  have d: "\<forall>d doc. slot ?h d = Some doc \<longrightarrow>
        info_id doc = d \<and> d < group_prefix ?h * 1000 + next_id ?h"
  proof (intro allI impI)
    fix d doc' assume s: "slot ?h d = Some doc'"
    show "info_id doc' = d \<and> d < group_prefix ?h * 1000 + next_id ?h"
    proof (cases "d = d0")
      case True
      then have "doc' = doc2" using s sl by simp
      then show ?thesis using bound doc(1) True doc2(2) by (auto simp: fields)
    next
      case False
      then have "slot h d = Some doc'" using s sl by simp
      then show ?thesis using bound by (simp add: fields)
    qed
  qed
  have wt: "\<forall>d'. d' \<noteq> d0 \<longrightarrow>
      getitem [] d' (AList.update d0 [] (snd tr)) = getitem [] d' (doc_title_words h)"
    unfolding tr_def
    by (simp add: getitem_update remove_words_eq(2)[OF postings_ok_sorted[OF pt]])
  have wc: "\<forall>d'. d' \<noteq> d0 \<longrightarrow>
      getitem [] d' (AList.update d0 [] (snd cr)) = getitem [] d' (doc_content_words h)"
    unfolding cr_def
    by (simp add: getitem_update remove_words_eq(2)[OF postings_ok_sorted[OF pc]])
  have rt: "postings_ok ((doc_tokens title h)(d0 := None)) (fst tr) (AList.update d0 [] (snd tr))"
    unfolding tr_def using postings_ok_remove_words[OF pt wt[unfolded tr_def]] .
  have rc: "postings_ok ((doc_tokens content h)(d0 := None)) (fst cr) (AList.update d0 [] (snd cr))"
    unfolding cr_def using postings_ok_remove_words[OF pc wc[unfolded cr_def]] .
  have e: "postings_ok (doc_tokens title ?h) (title_index ?h) (doc_title_words ?h)"
    using postings_ok_index_words[OF rt, of d0 "tokenize (title doc2)"]
    by (simp add: dt fields)
  have f: "postings_ok (doc_tokens content ?h) (content_index ?h) (doc_content_words ?h)"
    using postings_ok_index_words[OF rc, of d0 "tokenize (content doc2)"]
    by (simp add: dt fields)
  show ?thesis unfolding hub_inv_def using a b c d e f by (intro conjI)
qed

lemma postings_ok_empty: "postings_ok (\<lambda>d. None) [] []"
  by (simp add: postings_ok_def getitem_def)

lemma hub_inv_init: "hub_inv (init_hub gid hash_value)"
proof -
  have sl: "slot (init_hub gid hash_value) d = None" for d
    by (auto simp: slot_def init_hub_def)
  have "doc_tokens f (init_hub gid hash_value) = (\<lambda>d. None)" for f
    by (rule ext) (simp add: doc_tokens_def get_document_def sl)
  then show ?thesis
    using postings_ok_empty
    by (simp add: hub_inv_def sl) (simp add: init_hub_def alloc_ok_def)
qed

lemma hub_inv_reachable: "reachable h \<Longrightarrow> hub_inv h"
proof (induction rule: reachable.induct)
  case (reach_init gid hash_value)
  show ?case by (rule hub_inv_init)
next
  case (reach_add h t c)
  show ?case using reach_add.IH by (rule hub_inv_add_document)
next
  case (reach_update h doc_id t' c')
  show ?case using reach_update.IH by (rule hub_inv_update_document)
next
  case (reach_delete h doc_id)
  show ?case using reach_delete.IH by (rule hub_inv_delete_document)
qed

subsection \<open>Posting lists in reachable states\<close>

lemma getitem_map_of: "map_of d k = Some v \<Longrightarrow> getitem dflt k d = v"
  by (simp add: getitem_def)

lemma insort_as_insertion:
  "\<exists>i\<le>length a. insort a x = take i a @ x # drop i a"
proof -
  have "bisect_right a (key_of x) \<le> length a"
    unfolding bisect_right_def using bisect_loop_bounds[of 0 "length a"] by simp
  then show ?thesis unfolding insort_def Let_def by blast
qed

lemma strictly_increasing_postings:
  fixes ps :: "posting list"
  assumes "sorted ps" "distinct ps"
  shows "sorted_wrt (\<lambda>a b. fst a < fst b \<or> (fst a = fst b \<and> snd a < snd b)) ps"
proof -
  have "sorted_wrt (<) ps" using assms by (simp add: strict_sorted_iff)
  moreover have "fst a < fst b \<or> (fst a = fst b \<and> snd a < snd b)" if "a < b" for a b :: posting
    using that by (cases a; cases b) (auto simp: less_prod_def)
  ultimately show ?thesis by (rule sorted_wrt_mono_rel[rotated]) blast
qed

text \<open>
  C8. In every reachable state, the posting list of every word in \<open>title_index\<close> and in
  \<open>content_index\<close> is strictly increasing in (document id, token position). The ordered
  insert \<open>insort\<close>, which the indexing loops of \<open>add_document\<close> and \<open>update_document\<close> use,
  puts the new posting at one place of such a list and leaves the other postings in their
  order, and the list is sorted again.
\<close>

theorem posting_lists_sorted:
  assumes "reachable h"
    and "map_of (title_index h) w = Some ps \<or> map_of (content_index h) w = Some ps"
  shows "sorted_wrt (\<lambda>a b. fst a < fst b \<or> (fst a = fst b \<and> snd a < snd b)) ps
       \<and> sorted (insort ps x)
       \<and> (\<exists>i\<le>length ps. insort ps x = take i ps @ x # drop i ps)"
proof -
  have inv: "hub_inv h" using assms(1) by (rule hub_inv_reachable)
  have "ps = getitem [] w (title_index h) \<or> ps = getitem [] w (content_index h)"
    using assms(2) by (auto simp: getitem_map_of)
  moreover have "sorted (getitem [] w (title_index h)) \<and> distinct (getitem [] w (title_index h))"
    using inv by (simp add: hub_inv_def postings_ok_def)
  moreover have "sorted (getitem [] w (content_index h)) \<and> distinct (getitem [] w (content_index h))"
    using inv by (simp add: hub_inv_def postings_ok_def)
  ultimately have sd: "sorted ps" "distinct ps" by auto
  show ?thesis
    using strictly_increasing_postings[OF sd] sorted_insort[OF sd(1), of x]
      insort_as_insertion[of ps x]
    by (intro conjI)
qed

theorem posting_lists_sorted_witness:
  "map_of (title_index (snd (add_document ''a a'' ''y''
      (snd (add_document ''b a'' ''x'' (init_hub ''g'' 0)))))) ''a'' = Some [(1, 1), (2, 0), (2, 1)]
   \<and> sorted_wrt (\<lambda>a b. fst a < fst b \<or> (fst a = fst b \<and> snd a < snd b))
       [(1 :: int, 1 :: nat), (2, 0), (2, 1)]
   \<and> sorted (insort [(1, 1), (2, 0), (2, 1)] (1, 5))"
proof -
  let ?h = "snd (add_document ''a a'' ''y'' (snd (add_document ''b a'' ''x'' (init_hub ''g'' 0))))"
  have r: "reachable ?h" by (intro reach_add reach_init)
  have m: "map_of (title_index ?h) ''a'' = Some [(1, 1), (2, 0), (2, 1)]" by code_simp
  then have "map_of (title_index ?h) ''a'' = Some [(1, 1), (2, 0), (2, 1)]
      \<or> map_of (content_index ?h) ''a'' = Some [(1, 1), (2, 0), (2, 1)]" by (rule disjI1)
  from posting_lists_sorted[OF r this, of "(1, 5)"] m show ?thesis by blast
qed

text \<open>
  C9. In every reachable state and for every live document id, \<open>update_document(id)\<close> with
  neither title nor content given returns \<open>True\<close>; the document store is the same after
  the call, so the document has the title, content and flag it had, and in both indexes
  every word has the posting list it had.
\<close>

theorem update_document_without_arguments:
  assumes "reachable h" "get_document d h = Some doc"
  shows "fst (update_document d None None h) = True
       \<and> get_document d (snd (update_document d None None h)) = Some doc
       \<and> documents (snd (update_document d None None h)) = documents h
       \<and> map_of (title_index (snd (update_document d None None h))) = map_of (title_index h)
       \<and> map_of (content_index (snd (update_document d None None h))) = map_of (content_index h)"
proof -
  let ?h = "snd (update_document d None None h)"
  have sl: "slot h d = Some doc" and live: "\<not> deleted doc"
    using assms(2) by (auto simp: get_document_def split: option.splits if_splits)
  define tr where "tr = remove_words d (title_index h, doc_title_words h)"
  define cr where "cr = remove_words d (content_index h, doc_content_words h)"
  have d2: "doc = (case None :: string option of
                     None \<Rightarrow> (case None :: string option of None \<Rightarrow> doc | Some t' \<Rightarrow> doc\<lparr>title := t'\<rparr>)
                   | Some c' \<Rightarrow> (case None :: string option of None \<Rightarrow> doc
                                 | Some t' \<Rightarrow> doc\<lparr>title := t'\<rparr>)\<lparr>content := c'\<rparr>)"
    by simp
  note unf = update_document_unfold[OF sl live d2 tr_def cr_def]
  have r: "1 \<le> d" "d \<le> int (length (documents h))" using slot_Some_range[OF sl] by simp_all
  then have "documents h ! nat (d - 1) = Some doc" using sl by (simp add: slot_def)
  then have "(documents h)[nat (d - 1) := Some doc] = documents h"
    using list_update_id[of "documents h" "nat (d - 1)"] by simp
  then have docs: "documents ?h = documents h" unfolding unf by simp
  then have sl': "\<forall>d'. slot ?h d' = slot h d'" by (simp add: slot_def)
  have inv: "hub_inv h" using assms(1) by (rule hub_inv_reachable)
  have inv': "hub_inv ?h" using assms(1) by (intro hub_inv_reachable reach_update)
  have dt: "doc_tokens f ?h = doc_tokens f h" for f by (rule doc_tokens_slot[OF sl'])
  have pt: "postings_ok (doc_tokens title h) (title_index h) (doc_title_words h)"
    and pc: "postings_ok (doc_tokens content h) (content_index h) (doc_content_words h)"
    using inv by (simp_all add: hub_inv_def)
  have pt': "postings_ok (doc_tokens title h) (title_index ?h) (doc_title_words ?h)"
    and pc': "postings_ok (doc_tokens content h) (content_index ?h) (doc_content_words ?h)"
    using inv' by (simp_all add: hub_inv_def dt)
  have t: "map_of (title_index ?h) = map_of (title_index h)"
    using pt pt' by (rule postings_ok_unique)
  have c: "map_of (content_index ?h) = map_of (content_index h)"
    using pc pc' by (rule postings_ok_unique)
  have g: "get_document d ?h = Some doc"
    using assms(2) sl' by (simp add: get_document_def)
  have ret: "fst (update_document d None None h) = True" unfolding unf by simp
  show ?thesis using ret g docs t c by (intro conjI)
qed

theorem update_document_without_arguments_witness:
  "get_document 1 (snd (add_document ''Hello world'' ''hello again'' (init_hub ''g'' 0)))
     = Some \<lparr>title = ''Hello world'', content = ''hello again'', info_id = 1, deleted = False\<rparr>
   \<and> fst (update_document 1 None None
        (snd (add_document ''Hello world'' ''hello again'' (init_hub ''g'' 0)))) = True
   \<and> documents (snd (update_document 1 None None
        (snd (add_document ''Hello world'' ''hello again'' (init_hub ''g'' 0)))))
     = documents (snd (add_document ''Hello world'' ''hello again'' (init_hub ''g'' 0)))"
proof -
  let ?h = "snd (add_document ''Hello world'' ''hello again'' (init_hub ''g'' 0))"
  have r: "reachable ?h" by (intro reach_add reach_init)
  have g: "get_document 1 ?h
      = Some \<lparr>title = ''Hello world'', content = ''hello again'', info_id = 1, deleted = False\<rparr>"
    by code_simp
  from update_document_without_arguments[OF r g] g show ?thesis by blast
qed

subsection \<open>Search\<close>

lemma matches_getitem: "matches idx w = remdups (map fst (getitem [] w idx))"
  by (simp add: matches_def getitem_def split: option.splits)

lemma in_matches:
  assumes "postings_ok (doc_tokens f h) idx ws"
  shows "d \<in> set (matches idx w) \<longleftrightarrow>
           (\<exists>doc. get_document d h = Some doc \<and> w \<in> set (tokenize (f doc)))"
proof -
  have E: "\<And>p. (d, p) \<in> set (getitem [] w idx) \<longleftrightarrow>
        (\<exists>toks. doc_tokens f h d = Some toks \<and> p < length toks \<and> toks ! p = w)"
    using assms by (simp add: postings_ok_def)
  have "d \<in> set (matches idx w) \<longleftrightarrow> (\<exists>p. (d, p) \<in> set (getitem [] w idx))"
    by (force simp: matches_getitem)
  also have "\<dots> \<longleftrightarrow> (\<exists>p toks. doc_tokens f h d = Some toks \<and> p < length toks \<and> toks ! p = w)"
    using E by blast
  also have "\<dots> \<longleftrightarrow> (\<exists>doc. get_document d h = Some doc \<and> w \<in> set (tokenize (f doc)))"
    by (auto simp: doc_tokens_def in_set_conv_nth)
  finally show ?thesis .
qed

lemma get_document_Some:
  assumes "get_document d h = Some doc"
  shows "py_getitem (documents h) (d - 1) = Some (Some doc)" "\<not> deleted doc"
    "d \<le> int (length (documents h))" "slot h d = Some doc"
proof -
  show sl: "slot h d = Some doc" and nd: "\<not> deleted doc"
    using assms by (auto simp: get_document_def split: option.splits if_splits)
  have r: "1 \<le> d" "d \<le> int (length (documents h))" using slot_Some_range[OF sl] by simp_all
  show "d \<le> int (length (documents h))" by (rule r(2))
  show "py_getitem (documents h) (d - 1) = Some (Some doc)"
    using r sl by (simp add: py_getitem_def slot_def Let_def)
qed

lemma filter_deleted_live:
  assumes "\<forall>d\<in>set ids. \<exists>doc. get_document d h = Some doc"
  shows "filter_deleted h ids = Some ids"
  using assms
proof (induction ids)
  case Nil
  then show ?case by simp
next
  case (Cons d ids)
  then obtain doc where doc: "get_document d h = Some doc" by auto
  have "filter_deleted h ids = Some ids" using Cons by simp
  then show ?case using get_document_Some[OF doc] by simp
qed

lemma fetch_live:
  assumes "\<forall>d\<in>set ids. \<exists>doc. get_document d h = Some doc"
  shows "List.map_filter (\<lambda>doc_id. case py_getitem (documents h) (doc_id - 1) of
                                     None \<Rightarrow> None | Some d \<Rightarrow> d) ids
       = map (\<lambda>d. the (get_document d h)) ids"
  using assms
proof (induction ids)
  case Nil
  then show ?case by (simp add: map_filter_simps)
next
  case (Cons d ids)
  then obtain doc where doc: "get_document d h = Some doc" by auto
  show ?case using Cons get_document_Some(1)[OF doc] doc by (simp add: map_filter_simps)
qed

lemma search_unfold:
  assumes "tokenize keyword = term # rest"
    and "\<forall>d\<in>set (matches (title_index h) term). \<exists>doc. get_document d h = Some doc"
    and "\<forall>d\<in>set (matches (content_index h) term). \<exists>doc. get_document d h = Some doc"
  shows "search keyword h =
     Returned (map (\<lambda>d. the (get_document d h)) (matches (title_index h) term)
             @ map (\<lambda>d. the (get_document d h))
                 (filter (\<lambda>d. d \<notin> set (matches (title_index h) term))
                    (matches (content_index h) term)))"
proof -
  let ?tmi = "matches (title_index h) term"
  let ?cmi = "filter (\<lambda>d. d \<notin> set ?tmi) (matches (content_index h) term)"
  have lc: "\<forall>d\<in>set ?cmi. \<exists>doc. get_document d h = Some doc" using assms(3) by simp
  have ids: "search_ids keyword h = Returned (?tmi @ ?cmi)"
    using assms(1) filter_deleted_live[OF assms(2)] filter_deleted_live[OF lc]
    by (simp add: search_ids_def Let_def)
  have "\<forall>d\<in>set (?tmi @ ?cmi). \<exists>doc. get_document d h = Some doc"
    using assms(2) lc by auto
  from fetch_live[OF this] show ?thesis
    unfolding search_def ids by simp
qed

text \<open>
  C6. In every reachable state, \<open>search(keyword)\<close> returns a list: empty when the keyword
  has no token, and otherwise the documents that have the first token in their title,
  followed by the documents that have it in their content and not in their title. Every
  result is a stored document that is not tombstoned, and no id occurs twice.
\<close>

theorem search_results:
  assumes "reachable h"
  shows "(tokenize keyword = [] \<longrightarrow> search keyword h = Returned [])
       \<and> (\<forall>term rest. tokenize keyword = term # rest \<longrightarrow>
            (\<exists>tm cm. search keyword h = Returned (tm @ cm)
               \<and> (\<forall>doc\<in>set (tm @ cm). \<not> deleted doc \<and> get_document (info_id doc) h = Some doc)
               \<and> distinct (map info_id (tm @ cm))
               \<and> set tm = {doc. \<exists>d. get_document d h = Some doc
                                 \<and> term \<in> set (tokenize (title doc))}
               \<and> set cm = {doc. \<exists>d. get_document d h = Some doc
                                 \<and> term \<notin> set (tokenize (title doc))
                                 \<and> term \<in> set (tokenize (content doc))}))"
proof (intro conjI allI impI)
  assume "tokenize keyword = []"
  then show "search keyword h = Returned []"
    by (simp add: search_def search_ids_def map_filter_simps)
next
  fix "term" rest assume tk: "tokenize keyword = term # rest"
  have inv: "hub_inv h" using assms by (rule hub_inv_reachable)
  have pt: "postings_ok (doc_tokens title h) (title_index h) (doc_title_words h)"
    and pc: "postings_ok (doc_tokens content h) (content_index h) (doc_content_words h)"
    and ident: "\<forall>d doc. slot h d = Some doc \<longrightarrow> info_id doc = d"
    using inv by (simp_all add: hub_inv_def)
  define G where "G = (\<lambda>d. the (get_document d h))"
  define tmi where "tmi = matches (title_index h) term"
  define cmi where "cmi = filter (\<lambda>d. d \<notin> set tmi) (matches (content_index h) term)"
  have in_t: "d \<in> set tmi \<longleftrightarrow>
      (\<exists>doc. get_document d h = Some doc \<and> term \<in> set (tokenize (title doc)))" for d
    unfolding tmi_def by (rule in_matches[OF pt])
  have in_c: "d \<in> set cmi \<longleftrightarrow>
      (\<exists>doc. get_document d h = Some doc \<and> term \<notin> set (tokenize (title doc))
             \<and> term \<in> set (tokenize (content doc)))" for d
    unfolding cmi_def using in_matches[OF pc, of d "term"] in_t[of d] by auto
  have lt: "\<forall>d\<in>set (matches (title_index h) term). \<exists>doc. get_document d h = Some doc"
    using in_matches[OF pt] by blast
  have lc: "\<forall>d\<in>set (matches (content_index h) term). \<exists>doc. get_document d h = Some doc"
    using in_matches[OF pc] by blast
  have res: "search keyword h = Returned (map G tmi @ map G cmi)"
    unfolding G_def tmi_def cmi_def by (rule search_unfold[OF tk lt lc])
  have live: "\<exists>doc. get_document d h = Some doc" if "d \<in> set (tmi @ cmi)" for d
    using that in_t[of d] in_c[of d] by auto
  have G: "get_document d h = Some (G d) \<and> \<not> deleted (G d) \<and> info_id (G d) = d"
    if mem: "d \<in> set (tmi @ cmi)" for d
  proof -
    obtain doc where doc: "get_document d h = Some doc" using live[OF mem] by blast
    then have "G d = doc" by (simp add: G_def)
    moreover have "info_id doc = d" using ident get_document_Some(4)[OF doc] by blast
    ultimately show ?thesis using doc get_document_Some(2)[OF doc] by simp
  qed
  have a: "\<forall>doc\<in>set (map G tmi @ map G cmi).
      \<not> deleted doc \<and> get_document (info_id doc) h = Some doc"
  proof
    fix doc assume "doc \<in> set (map G tmi @ map G cmi)"
    then obtain d where d: "d \<in> set (tmi @ cmi)" "doc = G d" by auto
    show "\<not> deleted doc \<and> get_document (info_id doc) h = Some doc"
      using G[OF d(1)] d(2) by simp
  qed
  have "map info_id (map G (tmi @ cmi)) = tmi @ cmi"
    using G by (simp add: map_idI)
  moreover have "distinct (tmi @ cmi)"
    by (auto simp: tmi_def cmi_def matches_getitem)
  ultimately have b: "distinct (map info_id (map G tmi @ map G cmi))" by simp
  have c: "set (map G tmi) = {doc. \<exists>d. get_document d h = Some doc
                                 \<and> term \<in> set (tokenize (title doc))}"
  proof (intro set_eqI iffI)
    fix doc assume "doc \<in> set (map G tmi)"
    then obtain d where d: "d \<in> set tmi" "doc = G d" by auto
    then obtain doc' where "get_document d h = Some doc'" "term \<in> set (tokenize (title doc'))"
      using in_t by blast
    then show "doc \<in> {doc. \<exists>d. get_document d h = Some doc \<and> term \<in> set (tokenize (title doc))}"
      using d(2) by (auto simp: G_def)
  next
    fix doc assume "doc \<in> {doc. \<exists>d. get_document d h = Some doc \<and> term \<in> set (tokenize (title doc))}"
    then obtain d where d: "get_document d h = Some doc" "term \<in> set (tokenize (title doc))"
      by blast
    then have "d \<in> set tmi" using in_t by blast
    moreover have "G d = doc" using d(1) by (simp add: G_def)
    ultimately show "doc \<in> set (map G tmi)" by force
  qed
  have d: "set (map G cmi) = {doc. \<exists>d. get_document d h = Some doc
                                 \<and> term \<notin> set (tokenize (title doc))
                                 \<and> term \<in> set (tokenize (content doc))}"
  proof (intro set_eqI iffI)
    fix doc assume "doc \<in> set (map G cmi)"
    then obtain d where d: "d \<in> set cmi" "doc = G d" by auto
    then obtain doc' where "get_document d h = Some doc'" "term \<notin> set (tokenize (title doc'))"
      "term \<in> set (tokenize (content doc'))"
      using in_c by blast
    then show "doc \<in> {doc. \<exists>d. get_document d h = Some doc
                                 \<and> term \<notin> set (tokenize (title doc))
                                 \<and> term \<in> set (tokenize (content doc))}"
      using d(2) by (auto simp: G_def)
  next
    fix doc assume "doc \<in> {doc. \<exists>d. get_document d h = Some doc
                                 \<and> term \<notin> set (tokenize (title doc))
                                 \<and> term \<in> set (tokenize (content doc))}"
    then obtain d where d: "get_document d h = Some doc" "term \<notin> set (tokenize (title doc))"
      "term \<in> set (tokenize (content doc))"
      by blast
    then have "d \<in> set cmi" using in_c by blast
    moreover have "G d = doc" using d(1) by (simp add: G_def)
    ultimately show "doc \<in> set (map G cmi)" by force
  qed
  show "\<exists>tm cm. search keyword h = Returned (tm @ cm)
               \<and> (\<forall>doc\<in>set (tm @ cm). \<not> deleted doc \<and> get_document (info_id doc) h = Some doc)
               \<and> distinct (map info_id (tm @ cm))
               \<and> set tm = {doc. \<exists>d. get_document d h = Some doc
                                 \<and> term \<in> set (tokenize (title doc))}
               \<and> set cm = {doc. \<exists>d. get_document d h = Some doc
                                 \<and> term \<notin> set (tokenize (title doc))
                                 \<and> term \<in> set (tokenize (content doc))}"
    using res a b c d by blast
qed

theorem search_results_witness:
  "tokenize ''Apple tart'' = [''apple'', ''tart'']
   \<and> search ''Apple tart''
        (snd (delete_document 3 (snd (add_document ''apple z'' ''w''
          (snd (add_document ''y'' ''Apple pie''
            (snd (add_document ''apple'' ''x'' (init_hub ''g'' 0)))))))))
     = Returned [\<lparr>title = ''apple'', content = ''x'', info_id = 1, deleted = False\<rparr>,
                 \<lparr>title = ''y'', content = ''Apple pie'', info_id = 2, deleted = False\<rparr>]
   \<and> distinct (map info_id
        [\<lparr>title = ''apple'', content = ''x'', info_id = 1, deleted = False\<rparr>,
         \<lparr>title = ''y'', content = ''Apple pie'', info_id = 2, deleted = False\<rparr>])"
proof -
  let ?h = "snd (delete_document 3 (snd (add_document ''apple z'' ''w''
          (snd (add_document ''y'' ''Apple pie''
            (snd (add_document ''apple'' ''x'' (init_hub ''g'' 0))))))))"
  let ?r = "[\<lparr>title = ''apple'', content = ''x'', info_id = 1, deleted = False\<rparr>,
             \<lparr>title = ''y'', content = ''Apple pie'', info_id = 2, deleted = False\<rparr>]"
  have r: "reachable ?h" by (intro reach_delete reach_add reach_init)
  have tk: "tokenize ''Apple tart'' = [''apple'', ''tart'']" by code_simp
  have ev: "search ''Apple tart'' ?h = Returned ?r" by code_simp
  from search_results[OF r, of "''Apple tart''"]
  have "\<forall>term rest. tokenize ''Apple tart'' = term # rest \<longrightarrow>
      (\<exists>tm cm. search ''Apple tart'' ?h = Returned (tm @ cm)
         \<and> (\<forall>doc\<in>set (tm @ cm). \<not> deleted doc \<and> get_document (info_id doc) ?h = Some doc)
         \<and> distinct (map info_id (tm @ cm))
         \<and> set tm = {doc. \<exists>d. get_document d ?h = Some doc \<and> term \<in> set (tokenize (title doc))}
         \<and> set cm = {doc. \<exists>d. get_document d ?h = Some doc
                            \<and> term \<notin> set (tokenize (title doc))
                            \<and> term \<in> set (tokenize (content doc))})"
    by (rule conjunct2)
  then obtain tm cm where "search ''Apple tart'' ?h = Returned (tm @ cm)"
    "distinct (map info_id (tm @ cm))"
    using tk by blast
  then have "distinct (map info_id ?r)" using ev by simp
  then show ?thesis using tk ev by (intro conjI)
qed

end
